theory Spec2Isabelle
  imports Main
begin

section \<open>The document tree consumed by useLexicalNestedList.js\<close>

text \<open>
  The hook works on the editor's node tree through the node API of the \<open>lexical\<close>
  package (get-parent, get-children, append, insert-before, ...). A node reference is a
  natural number; \<open>null\<close> is \<open>None\<close>. Every node carries its kind, the reference of
  its parent and the ordered sequence of its children, and the tree is mutated in place,
  so the model is an explicit store that every operation takes and returns.
\<close>

datatype tag = UL | OL

datatype kind = ListNode tag | ListItemNode | ContentNode

record node =
  node_kind :: kind
  node_parent :: "nat option"
  node_children :: "nat list"

record editor_state =
  nodes :: "nat \<Rightarrow> node"
  fresh :: nat
  dirty :: "nat set"

subsection \<open>Reading the tree\<close>

text \<open>
  Modelled from the spec: the read capabilities of the host node API (section 6:
  get-parent, get-children, get-first-child, get-last-child, get-previous-sibling,
  get-next-sibling, get-preceding-siblings, get-following-siblings, is-empty), whose
  code is in the \<open>lexical\<close> package.
\<close>

definition getParent :: "editor_state \<Rightarrow> nat \<Rightarrow> nat option" where
  "getParent s n = node_parent (nodes s n)"

definition getChildren :: "editor_state \<Rightarrow> nat \<Rightarrow> nat list" where
  "getChildren s n = node_children (nodes s n)"

definition getFirstChild :: "editor_state \<Rightarrow> nat \<Rightarrow> nat option" where
  "getFirstChild s n = (case getChildren s n of [] \<Rightarrow> None | c # _ \<Rightarrow> Some c)"

definition getLastChild :: "editor_state \<Rightarrow> nat \<Rightarrow> nat option" where
  "getLastChild s n = (case rev (getChildren s n) of [] \<Rightarrow> None | c # _ \<Rightarrow> Some c)"

definition isEmpty :: "editor_state \<Rightarrow> nat \<Rightarrow> bool" where
  "isEmpty s n = (getChildren s n = [])"

definition getPreviousSiblings :: "editor_state \<Rightarrow> nat \<Rightarrow> nat list" where
  "getPreviousSiblings s n =
     (case getParent s n of
        None \<Rightarrow> []
      | Some p \<Rightarrow> takeWhile (\<lambda>c. c \<noteq> n) (getChildren s p))"

definition getNextSiblings :: "editor_state \<Rightarrow> nat \<Rightarrow> nat list" where
  "getNextSiblings s n =
     (case getParent s n of
        None \<Rightarrow> []
      | Some p \<Rightarrow> drop 1 (dropWhile (\<lambda>c. c \<noteq> n) (getChildren s p)))"

definition getPreviousSibling :: "editor_state \<Rightarrow> nat \<Rightarrow> nat option" where
  "getPreviousSibling s n =
     (case rev (getPreviousSiblings s n) of [] \<Rightarrow> None | c # _ \<Rightarrow> Some c)"

definition getNextSibling :: "editor_state \<Rightarrow> nat \<Rightarrow> nat option" where
  "getNextSibling s n =
     (case getNextSiblings s n of [] \<Rightarrow> None | c # _ \<Rightarrow> Some c)"

text \<open>
  Modelled from the spec: the predicates \<open>$isListNode\<close> and \<open>$isListItemNode\<close>
  (section 4.1: true iff the node is a List, respectively a ListItem; false for
  null), imported from \<open>lexical/ListNode\<close> and \<open>lexical/ListItemNode\<close>.
\<close>

definition isListNode :: "editor_state \<Rightarrow> nat option \<Rightarrow> bool" where
  "isListNode s node =
     (case node of
        None \<Rightarrow> False
      | Some n \<Rightarrow> (case node_kind (nodes s n) of ListNode _ \<Rightarrow> True | _ \<Rightarrow> False))"

definition isListItemNode :: "editor_state \<Rightarrow> nat option \<Rightarrow> bool" where
  "isListItemNode s node =
     (case node of None \<Rightarrow> False | Some n \<Rightarrow> node_kind (nodes s n) = ListItemNode)"

text \<open>
  Modelled from the spec: \<open>getTag\<close> of a List (section 3: the list's semantic kind).
  The source calls it on nodes that passed \<open>$isListNode\<close> only; on another node
  there is no tag.
\<close>

definition getTag :: "editor_state \<Rightarrow> nat \<Rightarrow> tag option" where
  "getTag s n = (case node_kind (nodes s n) of ListNode t \<Rightarrow> Some t | _ \<Rightarrow> None)"

subsection \<open>Mutating the tree\<close>

definition setParent :: "editor_state \<Rightarrow> nat \<Rightarrow> nat option \<Rightarrow> editor_state" where
  "setParent s n p = s\<lparr>nodes := (nodes s)(n := (nodes s n)\<lparr>node_parent := p\<rparr>)\<rparr>"

definition setChildren :: "editor_state \<Rightarrow> nat \<Rightarrow> nat list \<Rightarrow> editor_state" where
  "setChildren s n cs = s\<lparr>nodes := (nodes s)(n := (nodes s n)\<lparr>node_children := cs\<rparr>)\<rparr>"

text \<open>
  Modelled from the spec: the mutation primitives of the host node API (section 6:
  append-child(s), insert-before, insert-after, remove, replace-with, mark-dirty; section 9:
  relocation is "remove from owner A's sequence, insert into owner B's sequence", never
  leaving a node referenced by two owners). \<open>insertBefore\<close>, \<open>insertAfter\<close> and
  \<open>replace\<close> need the parent of the node they are called on; called on a detached node
  the host rejects the call (section 7), which is the result \<open>None\<close>.
\<close>

definition removeFromParent :: "editor_state \<Rightarrow> nat \<Rightarrow> editor_state" where
  "removeFromParent s n =
     (case getParent s n of
        None \<Rightarrow> s
      | Some p \<Rightarrow> setParent (setChildren s p (removeAll n (getChildren s p))) n None)"

definition remove :: "editor_state \<Rightarrow> nat \<Rightarrow> editor_state" where
  "remove s n = removeFromParent s n"

definition append :: "editor_state \<Rightarrow> nat \<Rightarrow> nat \<Rightarrow> editor_state" where
  "append s p n =
     (let s1 = removeFromParent s n
      in setParent (setChildren s1 p (getChildren s1 p @ [n])) n (Some p))"

definition appendAll :: "editor_state \<Rightarrow> nat \<Rightarrow> nat list \<Rightarrow> editor_state" where
  "appendAll s p ns = fold (\<lambda>n s'. append s' p n) ns s"

definition insertBefore :: "editor_state \<Rightarrow> nat \<Rightarrow> nat \<Rightarrow> editor_state option" where
  "insertBefore s t n =
     (let s1 = removeFromParent s n
      in case getParent s1 t of
           None \<Rightarrow> None
         | Some p \<Rightarrow>
             Some (setParent
                    (setChildren s1 p
                       (takeWhile (\<lambda>c. c \<noteq> t) (getChildren s1 p) @
                        n # dropWhile (\<lambda>c. c \<noteq> t) (getChildren s1 p)))
                    n (Some p)))"

definition insertAfter :: "editor_state \<Rightarrow> nat \<Rightarrow> nat \<Rightarrow> editor_state option" where
  "insertAfter s t n =
     (let s1 = removeFromParent s n
      in case getParent s1 t of
           None \<Rightarrow> None
         | Some p \<Rightarrow>
             Some (setParent
                    (setChildren s1 p
                       (takeWhile (\<lambda>c. c \<noteq> t) (getChildren s1 p) @
                        take 1 (dropWhile (\<lambda>c. c \<noteq> t) (getChildren s1 p)) @
                        n # drop 1 (dropWhile (\<lambda>c. c \<noteq> t) (getChildren s1 p))))
                    n (Some p)))"

definition replace :: "editor_state \<Rightarrow> nat \<Rightarrow> nat \<Rightarrow> editor_state option" where
  "replace s t n =
     (let s1 = removeFromParent s n
      in case getParent s1 t of
           None \<Rightarrow> None
         | Some p \<Rightarrow>
             Some (setParent
                    (setParent
                       (setChildren s1 p
                          (map (\<lambda>c. if c = t then n else c) (getChildren s1 p)))
                       t None)
                    n (Some p)))"

definition markDirty :: "editor_state \<Rightarrow> nat \<Rightarrow> editor_state" where
  "markDirty s n = s\<lparr>dirty := insert n (dirty s)\<rparr>"

definition markAllDirty :: "editor_state \<Rightarrow> nat list \<Rightarrow> editor_state" where
  "markAllDirty s ns = fold (\<lambda>n s'. markDirty s' n) ns s"

text \<open>
  Modelled from the spec: node construction (section 6: create-list(tag),
  create-list-item()). A new node is detached and childless; its reference is the next
  unused one.
\<close>

definition createNode :: "editor_state \<Rightarrow> kind \<Rightarrow> nat \<times> editor_state" where
  "createNode s k =
     (fresh s,
      s\<lparr>nodes := (nodes s)(fresh s := \<lparr>node_kind = k, node_parent = None, node_children = []\<rparr>),
        fresh := Suc (fresh s)\<rparr>)"

definition createListItemNode :: "editor_state \<Rightarrow> nat \<times> editor_state" where
  "createListItemNode s = createNode s ListItemNode"

definition createListNode :: "editor_state \<Rightarrow> tag \<Rightarrow> nat \<times> editor_state" where
  "createListNode s t = createNode s (ListNode t)"

section \<open>useLexicalNestedList.js\<close>

subsection \<open>isNestedListNode, findNearestListItemNode, getUniqueListItemNodes\<close>

definition isNestedListNode :: "editor_state \<Rightarrow> nat option \<Rightarrow> bool" where
  "isNestedListNode s node =
     (case node of
        None \<Rightarrow> False
      | Some n \<Rightarrow> isListItemNode s (Some n) \<and> isListNode s (getFirstChild s n))"

text \<open>
  The loop of \<open>findNearestListItemNode\<close> follows parent references until it meets a
  ListItem or \<open>null\<close>. In a store whose parent references form a cycle it does not
  return, which is the value \<open>None\<close> of the outer option; \<open>Some None\<close> is the
  result \<open>null\<close>.
\<close>

partial_function (option) findNearestListItemNode ::
  "editor_state \<Rightarrow> nat option \<Rightarrow> nat option option" where
  "findNearestListItemNode s currentNode =
     (case currentNode of
        None \<Rightarrow> Some None
      | Some n \<Rightarrow>
          if isListItemNode s (Some n) then Some (Some n)
          else findNearestListItemNode s (getParent s n))"

declare findNearestListItemNode.simps [code]

text \<open>
  \<open>keys\<close> is a JavaScript \<open>Set\<close>: adding a member again changes nothing, and
  \<open>Array.from\<close> lists the members in the order of their first insertion.
\<close>

definition setAdd :: "nat list \<Rightarrow> nat \<Rightarrow> nat list" where
  "setAdd keys n = (if n \<in> set keys then keys else keys @ [n])"

definition getUniqueListItemNodes :: "editor_state \<Rightarrow> nat list \<Rightarrow> nat list" where
  "getUniqueListItemNodes s nodeList =
     fold (\<lambda>node keys. if isListItemNode s (Some node) then setAdd keys node else keys)
       nodeList []"

subsection \<open>handleIndent\<close>

text \<open>A \<open>forEach\<close> whose callback may be rejected by the host: the first rejection ends it.\<close>

fun forEach ::
  "(editor_state \<Rightarrow> nat \<Rightarrow> editor_state option) \<Rightarrow> nat list \<Rightarrow> editor_state \<Rightarrow>
   editor_state option" where
  "forEach f [] s = Some s"
| "forEach f (x # xs) s = (case f s x of None \<Rightarrow> None | Some s' \<Rightarrow> forEach f xs s')"

text \<open>Lines 94 to 104: nested lists on both sides.\<close>

definition indentMergeBoth :: "editor_state \<Rightarrow> nat \<Rightarrow> nat \<Rightarrow> nat \<Rightarrow> editor_state" where
  "indentMergeBoth s listItemNode previousSibling nextSibling =
     (case getFirstChild s previousSibling of
        None \<Rightarrow> s
      | Some innerList \<Rightarrow>
          if isListNode s (Some innerList) then
            let s1 = append s innerList listItemNode;
                s2 = (case getFirstChild s1 nextSibling of
                        None \<Rightarrow> s1
                      | Some nextInnerList \<Rightarrow>
                          if isListNode s1 (Some nextInnerList) then
                            let children = getChildren s1 nextInnerList;
                                s2 = appendAll s1 innerList children
                            in remove s2 nextInnerList
                          else s1)
            in markAllDirty s2 (getChildren s2 innerList)
          else s)"

text \<open>Lines 107 to 114: a nested list after the item only.\<close>

definition indentMergeNext :: "editor_state \<Rightarrow> nat \<Rightarrow> nat \<Rightarrow> editor_state option" where
  "indentMergeNext s listItemNode nextSibling =
     (case getFirstChild s nextSibling of
        None \<Rightarrow> Some s
      | Some innerList \<Rightarrow>
          if isListNode s (Some innerList) then
            (case (case getFirstChild s innerList of
                     None \<Rightarrow> Some s
                   | Some firstChild \<Rightarrow> insertBefore s firstChild listItemNode) of
               None \<Rightarrow> None
             | Some s1 \<Rightarrow> Some (markAllDirty s1 (getChildren s1 innerList)))
          else Some s)"

text \<open>Lines 116 to 120: a nested list before the item only.\<close>

definition indentMergePrevious :: "editor_state \<Rightarrow> nat \<Rightarrow> nat \<Rightarrow> editor_state" where
  "indentMergePrevious s listItemNode previousSibling =
     (case getFirstChild s previousSibling of
        None \<Rightarrow> s
      | Some innerList \<Rightarrow>
          if isListNode s (Some innerList) then
            let s1 = append s innerList listItemNode
            in markAllDirty s1 (getChildren s1 innerList)
          else s)"

text \<open>Lines 123 to 135: no nested list on either side, a new one is created.\<close>

definition indentCreateNested ::
  "editor_state \<Rightarrow> nat \<Rightarrow> nat option \<Rightarrow> nat option \<Rightarrow> nat option \<Rightarrow> editor_state option" where
  "indentCreateNested s listItemNode parent previousSibling nextSibling =
     (case parent of
        None \<Rightarrow> Some s
      | Some p \<Rightarrow>
          (case getTag s p of
             None \<Rightarrow> Some s
           | Some t \<Rightarrow>
               let (newListItem, s1) = createListItemNode s;
                   (newList, s2) = createListNode s1 t;
                   s3 = append s2 newListItem newList;
                   s4 = append s3 newList listItemNode
               in (case previousSibling of
                     Some ps \<Rightarrow> insertAfter s4 ps newListItem
                   | None \<Rightarrow>
                       (case nextSibling of
                          Some ns \<Rightarrow> insertBefore s4 ns newListItem
                        | None \<Rightarrow> Some (append s4 p newListItem)))))"

text \<open>The callback of \<open>listItemNodes.forEach\<close> in \<open>handleIndent\<close>, lines 85 to 140.\<close>

definition indentListItem :: "editor_state \<Rightarrow> nat \<Rightarrow> editor_state option" where
  "indentListItem s listItemNode =
     (if isNestedListNode s (Some listItemNode) then Some s
      else
        let parent = getParent s listItemNode;
            nextSibling = getNextSibling s listItemNode;
            previousSibling = getPreviousSibling s listItemNode
        in case (if isNestedListNode s nextSibling \<and> isNestedListNode s previousSibling then
                   (case (previousSibling, nextSibling) of
                      (Some ps, Some ns) \<Rightarrow> Some (indentMergeBoth s listItemNode ps ns)
                    | _ \<Rightarrow> Some s)
                 else if isNestedListNode s nextSibling then
                   (case nextSibling of
                      Some ns \<Rightarrow> indentMergeNext s listItemNode ns
                    | None \<Rightarrow> Some s)
                 else if isNestedListNode s previousSibling then
                   (case previousSibling of
                      Some ps \<Rightarrow> Some (indentMergePrevious s listItemNode ps)
                    | None \<Rightarrow> Some s)
                 else indentCreateNested s listItemNode parent previousSibling nextSibling) of
             None \<Rightarrow> None
           | Some s' \<Rightarrow>
               Some (case parent of
                       None \<Rightarrow> s'
                     | Some p \<Rightarrow>
                         if isListNode s' (Some p) then markAllDirty s' (getChildren s' p)
                         else s'))"

definition handleIndent :: "editor_state \<Rightarrow> nat list \<Rightarrow> editor_state option" where
  "handleIndent s listItemNodes = forEach indentListItem listItemNodes s"

subsection \<open>handleOutdent\<close>

text \<open>Lines 178 to 193: the item is neither the first nor the last child, its list is split.\<close>

definition outdentSplit ::
  "editor_state \<Rightarrow> nat \<Rightarrow> nat \<Rightarrow> tag \<Rightarrow> editor_state option" where
  "outdentSplit s listItemNode grandparentListItem t =
     (let (previousSiblingsListItem, s1) = createListItemNode s;
          (previousSiblingsList, s2) = createListNode s1 t;
          s3 = append s2 previousSiblingsListItem previousSiblingsList;
          s4 = appendAll s3 previousSiblingsList (getPreviousSiblings s3 listItemNode);
          (nextSiblingsListItem, s5) = createListItemNode s4;
          (nextSiblingsList, s6) = createListNode s5 t;
          s7 = append s6 nextSiblingsListItem nextSiblingsList;
          s8 = appendAll s7 nextSiblingsList (getNextSiblings s7 listItemNode)
      in case insertBefore s8 grandparentListItem previousSiblingsListItem of
           None \<Rightarrow> None
         | Some s9 \<Rightarrow>
             (case insertAfter s9 grandparentListItem nextSiblingsListItem of
                None \<Rightarrow> None
              | Some s10 \<Rightarrow> replace s10 grandparentListItem listItemNode))"

text \<open>The callback of \<open>listItemNodes.forEach\<close> in \<open>handleOutdent\<close>, lines 145 to 198.\<close>

definition outdentListItem :: "editor_state \<Rightarrow> nat \<Rightarrow> editor_state option" where
  "outdentListItem s listItemNode =
     (if isNestedListNode s (Some listItemNode) then Some s
      else
        let parentList = getParent s listItemNode;
            grandparentListItem =
              (case parentList of None \<Rightarrow> None | Some pl \<Rightarrow> getParent s pl);
            greatGrandparentList =
              (case grandparentListItem of None \<Rightarrow> None | Some gp \<Rightarrow> getParent s gp)
        in if isListNode s greatGrandparentList \<and> isListItemNode s grandparentListItem \<and>
              isListNode s parentList
           then
             (case (parentList, grandparentListItem, greatGrandparentList) of
                (Some pl, Some gp, Some ggp) \<Rightarrow>
                  let firstChild = getFirstChild s pl;
                      lastChild = getLastChild s pl
                  in (case (if Some listItemNode = firstChild then
                              (case insertBefore s gp listItemNode of
                                 None \<Rightarrow> None
                               | Some s1 \<Rightarrow>
                                   Some (if isEmpty s1 pl then remove s1 gp else s1))
                            else if Some listItemNode = lastChild then
                              (case insertAfter s gp listItemNode of
                                 None \<Rightarrow> None
                               | Some s1 \<Rightarrow>
                                   Some (if isEmpty s1 pl then remove s1 gp else s1))
                            else
                              (case getTag s pl of
                                 None \<Rightarrow> Some s
                               | Some t \<Rightarrow> outdentSplit s listItemNode gp t)) of
                        None \<Rightarrow> None
                      | Some s' \<Rightarrow>
                          Some (markAllDirty (markAllDirty s' (getChildren s' pl))
                                  (getChildren (markAllDirty s' (getChildren s' pl)) ggp)))
              | _ \<Rightarrow> Some s)
           else Some s)"





definition handleOutdent :: "editor_state \<Rightarrow> nat list \<Rightarrow> editor_state option" where
  "handleOutdent s listItemNodes = forEach outdentListItem listItemNodes s"

subsection \<open>maybeIndentOrOutdent and the command listener\<close>

text \<open>
  Modelled from the spec: the selection read by \<open>$getSelection\<close> (section 6:
  get-selected-nodes, an ordered sequence, and get-anchor-node); \<open>null\<close> is \<open>None\<close>.
\<close>

record selection =
  getNodes :: "nat list"
  anchorNode :: nat

datatype direction = Indent | Outdent

text \<open>
  Lines 29 to 43, the spec's Selection Resolver. The outer option is \<open>None\<close> when
  \<open>findNearestListItemNode\<close> does not return.
\<close>

definition selectedListItemNodes :: "editor_state \<Rightarrow> selection \<Rightarrow> nat list option" where
  "selectedListItemNodes s sel =
     (let selectedNodes =
            (if length (getNodes sel) = 0 then getNodes sel @ [anchorNode sel]
             else getNodes sel)
      in if length selectedNodes = 1 then
           (case selectedNodes of
              [] \<Rightarrow> Some []
            | n # _ \<Rightarrow>
                (case findNearestListItemNode s (Some n) of
                   None \<Rightarrow> None
                 | Some None \<Rightarrow> Some []
                 | Some (Some nearestListItemNode) \<Rightarrow> Some [nearestListItemNode]))
         else Some (getUniqueListItemNodes s selectedNodes))"

definition maybeIndentOrOutdent ::
  "editor_state \<Rightarrow> selection option \<Rightarrow> direction \<Rightarrow> (bool \<times> editor_state) option" where
  "maybeIndentOrOutdent s selection d =
     (case selection of
        None \<Rightarrow> Some (False, s)
      | Some sel \<Rightarrow>
          (case selectedListItemNodes s sel of
             None \<Rightarrow> None
           | Some listItemNodes \<Rightarrow>
               if length listItemNodes > 0 then
                 (case (if d = Indent then handleIndent s listItemNodes
                        else handleOutdent s listItemNodes) of
                    None \<Rightarrow> None
                  | Some s' \<Rightarrow> Some (True, s'))
               else Some (False, s)))"

text \<open>The listener registered by \<open>useLexicalNestedList\<close>, lines 205 to 218.\<close>

definition commandListener ::
  "editor_state \<Rightarrow> selection option \<Rightarrow> string \<Rightarrow> (bool \<times> editor_state) option" where
  "commandListener s selection type =
     (if type = ''indentContent'' then
        (case maybeIndentOrOutdent s selection Indent of
           None \<Rightarrow> None
         | Some (hasHandledIndention, s') \<Rightarrow>
             if hasHandledIndention then Some (True, s') else Some (False, s'))
      else if type = ''outdentContent'' then
        (case maybeIndentOrOutdent s selection Outdent of
           None \<Rightarrow> None
         | Some (hasHandledIndention, s') \<Rightarrow>
             if hasHandledIndention then Some (True, s') else Some (False, s'))
      else Some (False, s))"

section \<open>Well-formed positions and example trees\<close>

text \<open>
  \<open>indented s t pl gp ggp\<close>: the item \<open>t\<close> is a child of the List \<open>pl\<close>, which is a
  child of the ListItem \<open>gp\<close>, which is a child of the List \<open>ggp\<close>. The host tree keeps
  parent references and child sequences consistent and free of repetitions and cycles;
  the part of that consistency that the outdent of \<open>t\<close> relies on is spelled out here.
\<close>

definition indented :: "editor_state \<Rightarrow> nat \<Rightarrow> nat \<Rightarrow> nat \<Rightarrow> nat \<Rightarrow> bool" where
  "indented s t pl gp ggp \<longleftrightarrow>
     getParent s t = Some pl \<and> getParent s pl = Some gp \<and> getParent s gp = Some ggp \<and>
     isListNode s (Some pl) \<and> isListItemNode s (Some gp) \<and> isListNode s (Some ggp) \<and>
     t \<noteq> gp \<and> pl \<noteq> ggp \<and>
     t \<in> set (getChildren s pl) \<and> distinct (getChildren s pl) \<and>
     gp \<in> set (getChildren s ggp) \<and> distinct (getChildren s ggp)"

text \<open>Reading a node of the tree that a transform returns, when it returns one.\<close>

definition getChildrenOpt :: "editor_state option \<Rightarrow> nat \<Rightarrow> nat list option" where
  "getChildrenOpt r n = (case r of None \<Rightarrow> None | Some s \<Rightarrow> Some (getChildren s n))"

definition getParentOpt :: "editor_state option \<Rightarrow> nat \<Rightarrow> nat option option" where
  "getParentOpt r n = (case r of None \<Rightarrow> None | Some s \<Rightarrow> Some (getParent s n))"

text \<open>
  A tree written as the list of its nodes: node \<open>n\<close> is entry \<open>n\<close>, given as its kind,
  its parent and its children. Nothing is dirty.
\<close>

definition storeOf :: "(kind \<times> nat option \<times> nat list) list \<Rightarrow> editor_state" where
  "storeOf xs =
     \<lparr>nodes = (\<lambda>n. if n < length xs
                   then (case xs ! n of
                           (k, p, cs) \<Rightarrow> \<lparr>node_kind = k, node_parent = p, node_children = cs\<rparr>)
                   else \<lparr>node_kind = ContentNode, node_parent = None, node_children = []\<rparr>),
      fresh = length xs, dirty = {}\<rparr>"

text \<open>
  The merge scenario: List 0 holds A = 1, B = 2, C = 3; A wraps the List 4 = [a1 = 5],
  C wraps the List 6 = [c1 = 7]; 8, 9 and 10 are the contents of B, a1 and c1.
\<close>

definition mergeState :: editor_state where
  "mergeState = storeOf
    [(ListNode UL, None, [1, 2, 3]),
     (ListItemNode, Some 0, [4]),
     (ListItemNode, Some 0, [8]),
     (ListItemNode, Some 0, [6]),
     (ListNode UL, Some 1, [5]),
     (ListItemNode, Some 4, [9]),
     (ListNode UL, Some 3, [7]),
     (ListItemNode, Some 6, [10]),
     (ContentNode, Some 2, []),
     (ContentNode, Some 5, []),
     (ContentNode, Some 7, [])]"

text \<open>A ListItem 1 with two content children 2 and 3.\<close>

definition dedupState :: editor_state where
  "dedupState = storeOf
    [(ListNode UL, None, [1]),
     (ListItemNode, Some 0, [2, 3]),
     (ContentNode, Some 1, []),
     (ContentNode, Some 1, [])]"

text \<open>
  The split scenario: the outer List 0 holds P = 1, which wraps the List 2 =
  [W = 3, X = 4, Y = 5, Z = 6].
\<close>

definition splitState :: editor_state where
  "splitState = storeOf
    [(ListNode UL, None, [1]),
     (ListItemNode, Some 0, [2]),
     (ListNode OL, Some 1, [3, 4, 5, 6]),
     (ListItemNode, Some 2, []),
     (ListItemNode, Some 2, []),
     (ListItemNode, Some 2, []),
     (ListItemNode, Some 2, [])]"

text \<open>
  Three levels of nesting: the items 3 and 4 of the List 2 wrap the Lists 6 and 7, and
  the only item 8 of the List 6 wraps the List 10.
\<close>

definition deepState :: editor_state where
  "deepState = storeOf
    [(ListNode UL, None, [1]),
     (ListItemNode, Some 0, [2]),
     (ListNode UL, Some 1, [3, 4, 5]),
     (ListItemNode, Some 2, [6]),
     (ListItemNode, Some 2, [7]),
     (ListItemNode, Some 2, []),
     (ListNode UL, Some 3, [8]),
     (ListNode UL, Some 4, [9]),
     (ListItemNode, Some 6, [10]),
     (ListItemNode, Some 7, []),
     (ListNode UL, Some 8, [11]),
     (ListItemNode, Some 10, [])]"


text \<open>The plain item 1 before the wrapper 2 around the List 3 = [4].\<close>

definition nextState :: editor_state where
  "nextState = storeOf
    [(ListNode UL, None, [1, 2]),
     (ListItemNode, Some 0, []),
     (ListItemNode, Some 0, [3]),
     (ListNode UL, Some 2, [4]),
     (ListItemNode, Some 3, [])]"

text \<open>The plain item 1 before the wrapper 2 around the empty List 3.\<close>

definition emptyInnerState :: editor_state where
  "emptyInnerState = storeOf
    [(ListNode UL, None, [1, 2]),
     (ListItemNode, Some 0, []),
     (ListItemNode, Some 0, [3]),
     (ListNode UL, Some 2, [])]"



section \<open>Well-formed trees and their content\<close>

text \<open>
  \<open>path s n r k\<close>: following parent references from \<open>n\<close> for \<open>k\<close> steps ends at
  the node \<open>r\<close>, which has no parent.
\<close>

inductive path :: "editor_state \<Rightarrow> nat \<Rightarrow> nat \<Rightarrow> nat \<Rightarrow> bool" for s where
  top: "getParent s n = None \<Longrightarrow> path s n n 0"
| up: "getParent s n = Some p \<Longrightarrow> path s p r k \<Longrightarrow> path s n r (Suc k)"

code_pred path .

text \<open>
  The invariants of the host tree and of the data model (spec section 3): parent
  references and child sequences agree, no child sequence repeats a node, references
  that are not yet handed out denote blank nodes, a ListItem that holds a List holds
  nothing else, a ListItem is never the child of a content node, and parent references
  do not form cycles.
\<close>

definition wellFormed :: "editor_state \<Rightarrow> bool" where
  "wellFormed s \<longleftrightarrow>
     (\<forall>n p. getParent s n = Some p \<longrightarrow> n \<in> set (getChildren s p)) \<and>
     (\<forall>n c. c \<in> set (getChildren s n) \<longrightarrow> getParent s c = Some n) \<and>
     (\<forall>n. distinct (getChildren s n)) \<and>
     (\<forall>n. fresh s \<le> n \<longrightarrow> getParent s n = None \<and> getChildren s n = []) \<and>
     (\<forall>n c. isListItemNode s (Some n) \<and> c \<in> set (getChildren s n) \<and> isListNode s (Some c) \<longrightarrow>
            getChildren s n = [c]) \<and>
     (\<forall>n p. isListItemNode s (Some n) \<and> getParent s n = Some p \<longrightarrow>
            node_kind (nodes s p) \<noteq> ContentNode) \<and>
     (\<forall>n. \<exists>r k. path s n r k)"

text \<open>The leaf content nodes of the tree whose top node is \<open>r\<close>.\<close>

definition leafContent :: "editor_state \<Rightarrow> nat \<Rightarrow> nat set" where
  "leafContent s r =
     {c. c < fresh s \<and> node_kind (nodes s c) = ContentNode \<and> getChildren s c = [] \<and>
         (\<exists>k. path s c r k)}"

text \<open>
  What a step from \<open>s\<close> to \<open>s'\<close> keeps: the tree is well-formed again, every top
  node has the same leaf content nodes below it, no reference is handed out twice,
  the nodes that existed keep their kind, and a top node stays a top node.
\<close>

definition preserves :: "editor_state \<Rightarrow> editor_state \<Rightarrow> bool" where
  "preserves s s' \<longleftrightarrow>
     wellFormed s' \<and> (\<forall>r. leafContent s' r = leafContent s r) \<and> fresh s \<le> fresh s' \<and>
     (\<forall>n. n < fresh s \<longrightarrow> node_kind (nodes s' n) = node_kind (nodes s n)) \<and>
     (\<forall>n. n < fresh s \<longrightarrow> getParent s n = None \<longrightarrow> getParent s' n = None)"

text \<open>
  \<open>reaches s c n\<close>: following parent references from \<open>c\<close>, any number of times, arrives
  at \<open>n\<close>: the node \<open>c\<close> belongs to the subtree of \<open>n\<close>.
\<close>

inductive reaches :: "editor_state \<Rightarrow> nat \<Rightarrow> nat \<Rightarrow> bool" for s where
  self: "reaches s n n"
| up: "getParent s c = Some p \<Longrightarrow> reaches s p n \<Longrightarrow> reaches s c n"

code_pred reaches .

text \<open>The leaf content nodes of the subtree of \<open>n\<close>.\<close>

definition subtreeContent :: "editor_state \<Rightarrow> nat \<Rightarrow> nat set" where
  "subtreeContent s n =
     {c. c < fresh s \<and> node_kind (nodes s c) = ContentNode \<and> getChildren s c = [] \<and>
         reaches s c n}"

text \<open>The same in the tree that a transform returns, when it returns one.\<close>

definition subtreeContentOpt :: "editor_state option \<Rightarrow> nat \<Rightarrow> nat set option" where
  "subtreeContentOpt r n = (case r of None \<Rightarrow> None | Some s \<Rightarrow> Some (subtreeContent s n))"

section \<open>The tree primitives on parents, children and kinds\<close>

lemma getParent_setParent [simp]:
  "getParent (setParent s n p) m = (if m = n then p else getParent s m)"
  by (simp add: getParent_def setParent_def)

lemma getChildren_setParent [simp]: "getChildren (setParent s n p) m = getChildren s m"
  by (simp add: getChildren_def setParent_def)

lemma getParent_setChildren [simp]: "getParent (setChildren s n cs) m = getParent s m"
  by (simp add: getParent_def setChildren_def)

lemma getChildren_setChildren [simp]:
  "getChildren (setChildren s n cs) m = (if m = n then cs else getChildren s m)"
  by (simp add: getChildren_def setChildren_def)

lemma kind_setParent [simp]: "node_kind (nodes (setParent s n p) m) = node_kind (nodes s m)"
  by (simp add: setParent_def)

lemma kind_setChildren [simp]: "node_kind (nodes (setChildren s n cs) m) = node_kind (nodes s m)"
  by (simp add: setChildren_def)

lemma fresh_setParent [simp]: "fresh (setParent s n p) = fresh s"
  by (simp add: setParent_def)

lemma fresh_setChildren [simp]: "fresh (setChildren s n cs) = fresh s"
  by (simp add: setChildren_def)

lemma dirty_setParent [simp]: "dirty (setParent s n p) = dirty s"
  by (simp add: setParent_def)

lemma dirty_setChildren [simp]: "dirty (setChildren s n cs) = dirty s"
  by (simp add: setChildren_def)

lemma getParent_removeFromParent [simp]:
  "getParent (removeFromParent s n) m = (if m = n then None else getParent s m)"
  by (simp add: removeFromParent_def split: option.splits)

lemma getChildren_removeFromParent [simp]:
  "getChildren (removeFromParent s n) m =
     (if getParent s n = Some m then removeAll n (getChildren s m) else getChildren s m)"
  by (simp add: removeFromParent_def split: option.splits)

lemma kind_removeFromParent [simp]:
  "node_kind (nodes (removeFromParent s n) m) = node_kind (nodes s m)"
  by (simp add: removeFromParent_def split: option.splits)

lemma fresh_removeFromParent [simp]: "fresh (removeFromParent s n) = fresh s"
  by (simp add: removeFromParent_def split: option.splits)

lemma dirty_removeFromParent [simp]: "dirty (removeFromParent s n) = dirty s"
  by (simp add: removeFromParent_def split: option.splits)

lemma nodes_markAllDirty [simp]: "nodes (markAllDirty s ns) = nodes s"
  unfolding markAllDirty_def by (induction ns arbitrary: s) (simp_all add: markDirty_def)

lemma fresh_markAllDirty [simp]: "fresh (markAllDirty s ns) = fresh s"
  unfolding markAllDirty_def by (induction ns arbitrary: s) (simp_all add: markDirty_def)

lemma dirty_markAllDirty [simp]: "dirty (markAllDirty s ns) = dirty s \<union> set ns"
  unfolding markAllDirty_def by (induction ns arbitrary: s) (auto simp: markDirty_def)

lemma getParent_markAllDirty [simp]: "getParent (markAllDirty s ns) = getParent s"
  by (rule ext) (simp add: getParent_def)

lemma getChildren_markAllDirty [simp]: "getChildren (markAllDirty s ns) = getChildren s"
  by (rule ext) (simp add: getChildren_def)

lemma getParent_append [simp]:
  "getParent (append s p n) m = (if m = n then Some p else getParent s m)"
  by (simp add: append_def Let_def)

lemma getChildren_append [simp]:
  "getChildren (append s p n) m =
     (if m = p then (if getParent s n = Some p then removeAll n (getChildren s p) else getChildren s p) @ [n]
      else if getParent s n = Some m then removeAll n (getChildren s m)
      else getChildren s m)"
  by (simp add: append_def Let_def)

lemma kind_append [simp]: "node_kind (nodes (append s p n) m) = node_kind (nodes s m)"
  by (simp add: append_def Let_def)

lemma fresh_append [simp]: "fresh (append s p n) = fresh s"
  by (simp add: append_def Let_def)

lemma kind_markAllDirty [simp]: "node_kind (nodes (markAllDirty s ns) m) = node_kind (nodes s m)"
  by simp

lemma getParent_remove [simp]:
  "getParent (remove s n) m = (if m = n then None else getParent s m)"
  by (simp add: remove_def)

lemma getChildren_remove [simp]:
  "getChildren (remove s n) m =
     (if getParent s n = Some m then removeAll n (getChildren s m) else getChildren s m)"
  by (simp add: remove_def)

lemma kind_remove [simp]: "node_kind (nodes (remove s n) m) = node_kind (nodes s m)"
  by (simp add: remove_def)

lemma takeWhile_neq_split [simp]:
  "x \<notin> set xs \<Longrightarrow> takeWhile (\<lambda>c. c \<noteq> x) (xs @ x # ys) = xs"
  by (induction xs) auto

lemma dropWhile_neq_split [simp]:
  "x \<notin> set xs \<Longrightarrow> dropWhile (\<lambda>c. c \<noteq> x) (xs @ x # ys) = x # ys"
  by (induction xs) auto

lemma fst_createNode [simp]: "fst (createNode s k) = fresh s"
  by (simp add: createNode_def)

lemma getParent_createNode [simp]:
  "getParent (snd (createNode s k)) m = (if m = fresh s then None else getParent s m)"
  by (simp add: createNode_def getParent_def)

lemma getChildren_createNode [simp]:
  "getChildren (snd (createNode s k)) m = (if m = fresh s then [] else getChildren s m)"
  by (simp add: createNode_def getChildren_def)

lemma kind_createNode [simp]:
  "node_kind (nodes (snd (createNode s k)) m) =
     (if m = fresh s then k else node_kind (nodes s m))"
  by (simp add: createNode_def)

lemma fresh_createNode [simp]: "fresh (snd (createNode s k)) = Suc (fresh s)"
  by (simp add: createNode_def)

lemma filter_notin_removeAll:
  "filter (\<lambda>c. c \<notin> set cs) (removeAll x xs) = filter (\<lambda>c. c \<noteq> x \<and> c \<notin> set cs) xs"
  by (induction xs) auto

lemma appendAll_Nil [simp]: "appendAll s p [] = s"
  by (simp add: appendAll_def)

lemma appendAll_Cons [simp]: "appendAll s p (c # cs) = appendAll (append s p c) p cs"
  by (simp add: appendAll_def)

lemma getParent_appendAll:
  "getParent (appendAll s p cs) m = (if m \<in> set cs then Some p else getParent s m)"
  by (induction cs arbitrary: s) auto

lemma kind_appendAll [simp]: "node_kind (nodes (appendAll s p cs) m) = node_kind (nodes s m)"
  by (induction cs arbitrary: s) auto

lemma fresh_appendAll [simp]: "fresh (appendAll s p cs) = fresh s"
  by (induction cs arbitrary: s) auto

lemma getChildren_appendAll:
  assumes "distinct cs" and "\<forall>c\<in>set cs. getParent s c = Some q" and "q \<noteq> p"
  shows "getChildren (appendAll s p cs) m =
           (if m = p then getChildren s p @ cs
            else if m = q then filter (\<lambda>c. c \<notin> set cs) (getChildren s q)
            else getChildren s m)"
  using assms
proof (induction cs arbitrary: s)
  case Nil
  then show ?case by simp
next
  case (Cons c cs)
  have "getChildren (appendAll (append s p c) p cs) m =
           (if m = p then getChildren (append s p c) p @ cs
            else if m = q then filter (\<lambda>x. x \<notin> set cs) (getChildren (append s p c) q)
            else getChildren (append s p c) m)"
    using Cons.prems by (intro Cons.IH) auto
  then show ?case using Cons.prems
    by (auto simp: filter_notin_removeAll intro: filter_cong)
qed

lemma map_replace_notin:
  "x \<notin> set xs \<Longrightarrow> map (\<lambda>c. if c = x then y else c) xs = xs"
  by (induction xs) auto

lemma map_replace_split:
  "x \<notin> set xs \<Longrightarrow> x \<notin> set ys \<Longrightarrow>
   map (\<lambda>c. if c = x then y else c) (xs @ x # ys) = xs @ y # ys"
  by (simp add: map_replace_notin)

lemma filter_notin_prefix:
  "distinct (ps @ t # ns) \<Longrightarrow> filter (\<lambda>c. c \<notin> set ps) (ps @ t # ns) = t # ns"
  by (auto simp: filter_empty_conv filter_id_conv)

lemma filter_notin_suffix:
  "distinct (t # ns) \<Longrightarrow> filter (\<lambda>c. c \<notin> set ns) (t # ns) = [t]"
  by (auto simp: filter_empty_conv)

lemma takeWhile_neq_split2:
  "x \<notin> set xs \<Longrightarrow> y \<noteq> x \<Longrightarrow> takeWhile (\<lambda>c. c \<noteq> x) (xs @ y # x # ys) = xs @ [y]"
  by (induction xs) auto

lemma dropWhile_neq_split2:
  "x \<notin> set xs \<Longrightarrow> y \<noteq> x \<Longrightarrow> dropWhile (\<lambda>c. c \<noteq> x) (xs @ y # x # ys) = x # ys"
  by (induction xs) auto

lemma removeFromParent_detached [simp]: "getParent s n = None \<Longrightarrow> removeFromParent s n = s"
  by (simp add: removeFromParent_def)

lemma insertBefore_detached:
  "getParent s n = None \<Longrightarrow> getParent s t = Some p \<Longrightarrow>
   insertBefore s t n =
     Some (setParent
            (setChildren s p
               (takeWhile (\<lambda>c. c \<noteq> t) (getChildren s p) @
                n # dropWhile (\<lambda>c. c \<noteq> t) (getChildren s p)))
            n (Some p))"
  by (simp add: insertBefore_def)

lemma insertAfter_detached:
  "getParent s n = None \<Longrightarrow> getParent s t = Some p \<Longrightarrow>
   insertAfter s t n =
     Some (setParent
            (setChildren s p
               (takeWhile (\<lambda>c. c \<noteq> t) (getChildren s p) @
                take 1 (dropWhile (\<lambda>c. c \<noteq> t) (getChildren s p)) @
                n # drop 1 (dropWhile (\<lambda>c. c \<noteq> t) (getChildren s p))))
            n (Some p))"
  by (simp add: insertAfter_def)

lemma isListItemNode_markAllDirty [simp]:
  "isListItemNode (markAllDirty s ns) = isListItemNode s"
  by (rule ext) (simp add: isListItemNode_def split: option.splits)

lemma isListNode_markAllDirty [simp]: "isListNode (markAllDirty s ns) = isListNode s"
  by (rule ext) (simp add: isListNode_def split: option.splits)

lemma getTag_markAllDirty [simp]: "getTag (markAllDirty s ns) = getTag s"
  by (rule ext) (simp add: getTag_def)


lemma fresh_remove [simp]: "fresh (remove s n) = fresh s"
  by (simp add: remove_def)


section \<open>The Selection Resolver\<close>

lemma fold_setAdd:
  "distinct acc \<Longrightarrow>
   distinct (fold (\<lambda>node keys. if P node then setAdd keys node else keys) xs acc) \<and>
   set (fold (\<lambda>node keys. if P node then setAdd keys node else keys) xs acc) =
     set acc \<union> {n \<in> set xs. P n}"
  by (induction xs arbitrary: acc) (auto simp: setAdd_def)

lemma getUniqueListItemNodes_distinct: "distinct (getUniqueListItemNodes s xs)"
  unfolding getUniqueListItemNodes_def using fold_setAdd [of "[]"] by simp

lemma getUniqueListItemNodes_set:
  "set (getUniqueListItemNodes s xs) = {n \<in> set xs. isListItemNode s (Some n)}"
  unfolding getUniqueListItemNodes_def using fold_setAdd [of "[]"] by simp

lemma count_list_distinct: "distinct xs \<Longrightarrow> x \<in> set xs \<Longrightarrow> count_list xs x = 1"
  by (induction xs) auto

text \<open>
  Claim C2, as amended. When the selection's node set has two or more entries, a ListItem
  that is itself among them, any number of times, is returned exactly once; the result
  holds exactly the ListItems of the node set. (Entries that are descendants of a
  ListItem are not resolved to it in this case: see the counterexample.)
\<close>

theorem selectedListItemNodes_once:
  assumes "2 \<le> length (getNodes sel)" and "l \<in> set (getNodes sel)"
    and "isListItemNode s (Some l)"
  shows "\<exists>r. selectedListItemNodes s sel = Some r \<and> count_list r l = 1 \<and>
             set r = {n \<in> set (getNodes sel). isListItemNode s (Some n)}"
proof -
  have "selectedListItemNodes s sel = Some (getUniqueListItemNodes s (getNodes sel))"
    using assms(1) by (cases "getNodes sel") (auto simp: selectedListItemNodes_def Let_def)
  moreover have "count_list (getUniqueListItemNodes s (getNodes sel)) l = 1"
    using assms(2,3)
    by (intro count_list_distinct)
      (simp_all add: getUniqueListItemNodes_distinct getUniqueListItemNodes_set)
  ultimately show ?thesis by (simp add: getUniqueListItemNodes_set)
qed

theorem selectedListItemNodes_once_witness:
  "2 \<le> length (getNodes \<lparr>getNodes = [1, 2, 1], anchorNode = 2\<rparr>) \<and>
   isListItemNode dedupState (Some 1) \<and>
   (\<exists>r. selectedListItemNodes dedupState \<lparr>getNodes = [1, 2, 1], anchorNode = 2\<rparr> = Some r \<and>
        count_list r 1 = 1)"
proof -
  have h1: "2 \<le> length (getNodes \<lparr>getNodes = [1, 2, 1], anchorNode = 2\<rparr>)" by simp
  have h2: "1 \<in> set (getNodes \<lparr>getNodes = [1, 2, 1], anchorNode = 2\<rparr>)" by simp
  have h3: "isListItemNode dedupState (Some 1)"
    by (simp add: isListItemNode_def dedupState_def storeOf_def)
  from selectedListItemNodes_once [OF h1 h2 h3] h1 h3 show ?thesis by blast
qed

text \<open>
  Claim C2 as stated fails: the node set [2, 3] refers to the ListItem 1 twice through
  its descendants 2 and 3, and the Selection Resolver returns no ListItem at all.
\<close>

theorem selectedListItemNodes_descendants_counterexample:
  "getParent dedupState 2 = Some 1 \<and> getParent dedupState 3 = Some 1 \<and>
   isListItemNode dedupState (Some 1) \<and>
   selectedListItemNodes dedupState \<lparr>getNodes = [2, 3], anchorNode = 2\<rparr> = Some []"
  by (simp add: selectedListItemNodes_def getUniqueListItemNodes_def isListItemNode_def
      getParent_def dedupState_def storeOf_def)

section \<open>The command listener\<close>

lemma maybeIndentOrOutdent_True:
  "maybeIndentOrOutdent s selection d = Some (True, s') \<longleftrightarrow>
     (\<exists>sel ts. selection = Some sel \<and> selectedListItemNodes s sel = Some ts \<and> ts \<noteq> [] \<and>
        (if d = Indent then handleIndent s ts else handleOutdent s ts) = Some s')"
  by (auto simp: maybeIndentOrOutdent_def split: option.splits if_splits)

lemma maybeIndentOrOutdent_False:
  "maybeIndentOrOutdent s selection d = Some (False, s') \<longleftrightarrow>
     s' = s \<and> (selection = None \<or>
       (\<exists>sel. selection = Some sel \<and> selectedListItemNodes s sel = Some []))"
  by (auto simp: maybeIndentOrOutdent_def split: option.splits if_splits)

lemma commandListener_cases:
  "commandListener s selection type =
     (if type = ''indentContent'' then maybeIndentOrOutdent s selection Indent
      else if type = ''outdentContent'' then maybeIndentOrOutdent s selection Outdent
      else Some (False, s))"
  unfolding commandListener_def by (auto split: option.splits)

text \<open>
  Claim C9. The listener returns true exactly when the command is one of the two handled
  kinds, the Selection Resolver gives a non-empty list of targets and the transform run
  on them comes back; it returns false, with the tree untouched, exactly when the command
  is of another kind, the selection is null, or the Selection Resolver gives no target.
\<close>

theorem commandListener_handled_iff:
  "(commandListener s selection type = Some (True, s') \<longleftrightarrow>
      (type = ''indentContent'' \<or> type = ''outdentContent'') \<and>
      (\<exists>sel ts. selection = Some sel \<and> selectedListItemNodes s sel = Some ts \<and> ts \<noteq> [] \<and>
         (if type = ''indentContent'' then handleIndent s ts else handleOutdent s ts) =
           Some s')) \<and>
   (commandListener s selection type = Some (False, s') \<longleftrightarrow>
      s' = s \<and>
      (type \<noteq> ''indentContent'' \<and> type \<noteq> ''outdentContent'' \<or> selection = None \<or>
       (\<exists>sel. selection = Some sel \<and> selectedListItemNodes s sel = Some [])))"
proof (cases "type = ''indentContent''")
  case True
  then show ?thesis by (auto simp: commandListener_cases maybeIndentOrOutdent_True maybeIndentOrOutdent_False)
next
  case False
  show ?thesis
  proof (cases "type = ''outdentContent''")
    case True
    with False show ?thesis by (auto simp: commandListener_cases maybeIndentOrOutdent_True maybeIndentOrOutdent_False)
  next
    case o: False
    with False show ?thesis by (auto simp: commandListener_cases)
  qed
qed

theorem commandListener_handled_iff_witness:
  "commandListener deepState (Some \<lparr>getNodes = [], anchorNode = 8\<rparr>) ''outdentContent'' =
     Some (True, deepState) \<and>
   commandListener splitState None ''outdentContent'' = Some (False, splitState) \<and>
   commandListener splitState (Some \<lparr>getNodes = [0, 2], anchorNode = 0\<rparr>) ''outdentContent'' =
     Some (False, splitState) \<and>
   commandListener splitState (Some \<lparr>getNodes = [], anchorNode = 5\<rparr>) ''insertText'' =
     Some (False, splitState)"
proof -
  have r: "selectedListItemNodes deepState \<lparr>getNodes = [], anchorNode = 8\<rparr> = Some [8]"
    by (simp add: selectedListItemNodes_def findNearestListItemNode.simps isListItemNode_def
        deepState_def storeOf_def)
  have t: "handleOutdent deepState [8] = Some deepState"
    by (simp add: handleOutdent_def outdentListItem_def isNestedListNode_def isListNode_def
        isListItemNode_def getFirstChild_def getChildren_def getParent_def deepState_def
        storeOf_def)
  have e: "selectedListItemNodes splitState \<lparr>getNodes = [0, 2], anchorNode = 0\<rparr> = Some []"
    by (simp add: selectedListItemNodes_def getUniqueListItemNodes_def isListItemNode_def
        splitState_def storeOf_def)
  have 1: "commandListener deepState (Some \<lparr>getNodes = [], anchorNode = 8\<rparr>)
             ''outdentContent'' = Some (True, deepState)"
    using commandListener_handled_iff
      [of deepState "Some \<lparr>getNodes = [], anchorNode = 8\<rparr>" "''outdentContent''" deepState]
      r t
    by simp
  have 2: "commandListener splitState None ''outdentContent'' = Some (False, splitState)"
    using commandListener_handled_iff [of splitState None "''outdentContent''" splitState]
    by simp
  have 3: "commandListener splitState (Some \<lparr>getNodes = [0, 2], anchorNode = 0\<rparr>)
             ''outdentContent'' = Some (False, splitState)"
    using commandListener_handled_iff
      [of splitState "Some \<lparr>getNodes = [0, 2], anchorNode = 0\<rparr>" "''outdentContent''" splitState] e
    by simp
  have 4: "commandListener splitState (Some \<lparr>getNodes = [], anchorNode = 5\<rparr>) ''insertText'' =
             Some (False, splitState)"
    using commandListener_handled_iff
      [of splitState "Some \<lparr>getNodes = [], anchorNode = 5\<rparr>" "''insertText''" splitState]
    by simp
  from 1 2 3 4 show ?thesis by blast
qed

section \<open>Targets in an unexpected tree\<close>

lemma forEach_skip: "f s t = Some s \<Longrightarrow> forEach f (t # ts) s = forEach f ts s"
  by simp






section \<open>Indent between two nested lists\<close>

text \<open>
  Claim C1, evaluated on the merge scenario. Indenting B = 2 gives the single inner
  List 4 = [a1, B, c1] = [5, 2, 7], and C's inner List 6 is detached; but C = 3 itself
  stays in the outer List 0, as a ListItem without children.
\<close>

theorem merge_scenario_keeps_empty_wrapper:
  "getChildrenOpt (handleIndent mergeState [2]) 4 = Some [5, 2, 7] \<and>
   getChildrenOpt (handleIndent mergeState [2]) 0 = Some [1, 3] \<and>
   getChildrenOpt (handleIndent mergeState [2]) 3 = Some [] \<and>
   getParentOpt (handleIndent mergeState [2]) 3 = Some (Some 0) \<and>
   getParentOpt (handleIndent mergeState [2]) 6 = Some None"
  by code_simp

section \<open>Outdent\<close>

lemma indented_neq:
  assumes "indented s t pl gp ggp"
  shows "t \<noteq> gp" "pl \<noteq> ggp" "pl \<noteq> gp" "gp \<noteq> ggp" "gp \<noteq> pl" "ggp \<noteq> gp" "ggp \<noteq> pl" "gp \<noteq> t"
  using assms by (auto simp: indented_def isListNode_def isListItemNode_def split: kind.splits)

lemma outdent_guard:
  assumes "indented s t pl gp ggp"
  shows "isListNode s (Some ggp)" "isListItemNode s (Some gp)" "isListNode s (Some pl)"
  using assms by (auto simp: indented_def)

text \<open>
  Claim C7, as amended. A target that is not itself a nested-list wrapper, has the
  ancestry List, ListItem, List and is the first child of its parent List is moved to
  sit immediately before the grandparent ListItem in the great-grandparent List; the
  grandparent ListItem is removed exactly when the parent List is empty after the move.
\<close>

theorem outdent_first_child:
  assumes ind: "indented s t pl gp ggp"
    and nn: "\<not> isNestedListNode s (Some t)"
    and first: "getFirstChild s pl = Some t"
    and pos: "getChildren s ggp = xs @ gp # ys"
  shows "\<exists>s'. outdentListItem s t = Some s' \<and>
           getParent s' t = Some ggp \<and>
           getChildren s' pl = tl (getChildren s pl) \<and>
           (if tl (getChildren s pl) = []
            then getChildren s' ggp = xs @ t # ys \<and> getParent s' gp = None
            else getChildren s' ggp = xs @ t # gp # ys \<and> getParent s' gp = Some ggp)"
proof -
  note neq = indented_neq [OF ind]
  from ind have par:
    "getParent s t = Some pl" "getParent s pl = Some gp" "getParent s gp = Some ggp"
    by (auto simp: indented_def)
  from ind pos have d: "gp \<notin> set xs" "gp \<notin> set ys" by (auto simp: indented_def)
  from first obtain rest where cs: "getChildren s pl = t # rest"
    by (auto simp: getFirstChild_def split: list.splits)
  with ind have trest: "t \<notin> set rest" by (auto simp: indented_def)
  have ib: "insertBefore s gp t =
              Some (setParent (setChildren (removeFromParent s t) ggp (xs @ t # gp # ys))
                      t (Some ggp))"
    using par neq d pos by (simp add: insertBefore_def Let_def)
  show ?thesis
    unfolding outdentListItem_def Let_def
    using nn par outdent_guard [OF ind] first neq d pos cs trest
    by (simp add: ib isEmpty_def)
qed

theorem outdent_first_child_witness:
  "indented splitState 3 2 1 0 \<and> \<not> isNestedListNode splitState (Some 3) \<and>
   getFirstChild splitState 2 = Some 3 \<and> getChildren splitState 0 = [] @ 1 # [] \<and>
   (\<exists>s'. outdentListItem splitState 3 = Some s' \<and> getParent s' 3 = Some 0 \<and>
         getChildren s' 2 = [4, 5, 6] \<and> getChildren s' 0 = [3, 1] \<and>
         getParent s' 1 = Some 0)"
proof -
  have h1: "indented splitState 3 2 1 0"
    by (simp add: indented_def isListNode_def isListItemNode_def getParent_def getChildren_def
        splitState_def storeOf_def)
  have h2: "\<not> isNestedListNode splitState (Some 3)"
    by (simp add: isNestedListNode_def isListNode_def isListItemNode_def getFirstChild_def
        getChildren_def splitState_def storeOf_def)
  have h3: "getFirstChild splitState 2 = Some 3"
    by (simp add: getFirstChild_def getChildren_def splitState_def storeOf_def)
  have h4: "getChildren splitState 0 = [] @ 1 # []"
    by (simp add: getChildren_def splitState_def storeOf_def)
  have h5: "tl (getChildren splitState 2) = [4, 5, 6]"
    by (simp add: getChildren_def splitState_def storeOf_def)
  from outdent_first_child [OF h1 h2 h3 h4] h1 h2 h3 h4 show ?thesis unfolding h5 by auto
qed

text \<open>
  Claim C7 as stated fails: in \<open>deepState\<close> the item 3 has the ancestry List 2,
  ListItem 1, List 0 and is the first child of 2, but it is itself a nested-list wrapper,
  and outdent leaves it where it is.
\<close>

theorem outdent_first_child_wrapper_counterexample:
  "indented deepState 3 2 1 0 \<and> getFirstChild deepState 2 = Some 3 \<and>
   outdentListItem deepState 3 = Some deepState \<and>
   handleOutdent deepState [3] = Some deepState"
  by (simp add: indented_def outdentListItem_def handleOutdent_def isNestedListNode_def
      isListNode_def isListItemNode_def getFirstChild_def getParent_def getChildren_def
      deepState_def storeOf_def)





text \<open>
  The split of lines 178 to 193, stage by stage: the two new wrappers are built and
  filled from the target's siblings, put on either side of the grandparent ListItem, and
  the grandparent ListItem is replaced by the target.
\<close>

lemma outdentSplit_frame:
  assumes ind: "indented s t pl gp ggp"
    and kids: "getChildren s pl = ps @ t # ns"
    and pos: "getChildren s ggp = xs @ gp # ys"
    and sib: "\<forall>c\<in>set (getChildren s pl). getParent s c = Some pl \<and> c < fresh s"
    and old: "pl < fresh s" "gp < fresh s" "ggp < fresh s"
    and oldc: "\<forall>c\<in>set (getChildren s ggp). c < fresh s"
  shows "\<exists>s'. outdentSplit s t gp tg = Some s' \<and> fresh s' = fresh s + 4 \<and>
           (\<forall>m. getParent s' m =
                  (if m = t then Some ggp
                   else if m = gp then None
                   else if m = fresh s \<or> m = fresh s + 2 then Some ggp
                   else if m = fresh s + 1 then Some (fresh s)
                   else if m = fresh s + 3 then Some (fresh s + 2)
                   else if m \<in> set ps then Some (fresh s + 1)
                   else if m \<in> set ns then Some (fresh s + 3)
                   else getParent s m)) \<and>
           (\<forall>m. getChildren s' m =
                  (if m = ggp then xs @ [fresh s, t, fresh s + 2] @ ys
                   else if m = pl then []
                   else if m = fresh s then [fresh s + 1]
                   else if m = fresh s + 1 then ps
                   else if m = fresh s + 2 then [fresh s + 3]
                   else if m = fresh s + 3 then ns
                   else getChildren s m)) \<and>
           (\<forall>m. node_kind (nodes s' m) =
                  (if m = fresh s \<or> m = fresh s + 2 then ListItemNode
                   else if m = fresh s + 1 \<or> m = fresh s + 3 then ListNode tg
                   else node_kind (nodes s m)))"
proof -
  note neq = indented_neq [OF ind]
  from ind have par:
    "getParent s t = Some pl" "getParent s pl = Some gp" "getParent s gp = Some ggp"
    by (auto simp: indented_def)
  from ind kids have dist: "distinct (ps @ t # ns)" by (simp add: indented_def)
  from ind pos have d: "gp \<notin> set xs" "gp \<notin> set ys" by (auto simp: indented_def)
  from sib kids have told: "t < fresh s" by simp
  from sib kids have psold: "\<forall>c\<in>set ps. c < fresh s \<and> getParent s c = Some pl"
    and nsold: "\<forall>c\<in>set ns. c < fresh s \<and> getParent s c = Some pl" by auto
  from oldc pos have xsold: "\<forall>c\<in>set xs. c < fresh s" "\<forall>c\<in>set ys. c < fresh s" by auto
  define w1 where "w1 = fresh s"
  define l1 where "l1 = Suc (fresh s)"
  define w2 where "w2 = Suc (Suc (fresh s))"
  define l2 where "l2 = Suc (Suc (Suc (fresh s)))"
  note new_defs = w1_def l1_def w2_def l2_def
  define s3 where
    "s3 = append (snd (createListNode (snd (createListItemNode s)) tg)) w1 l1"
  have P3: "getParent s3 m = (if m = l1 then Some w1 else if m = w1 then None else getParent s m)"
    and C3: "getChildren s3 m = (if m = w1 then [l1] else if m = l1 then [] else getChildren s m)"
    and K3: "node_kind (nodes s3 m) =
               (if m = l1 then ListNode tg else if m = w1 then ListItemNode
                else node_kind (nodes s m))"
    and F3: "fresh s3 = w2" for m
    by (auto simp: s3_def new_defs createListNode_def createListItemNode_def)
  have prev3: "getPreviousSiblings s3 t = ps"
    using told old dist by (simp add: getPreviousSiblings_def P3 C3 par kids new_defs)
  define s4 where "s4 = appendAll s3 l1 (getPreviousSiblings s3 t)"
  have pp3: "\<forall>c\<in>set ps. getParent s3 c = Some pl"
    using psold by (auto simp: P3 new_defs)
  have P4: "getParent s4 m = (if m \<in> set ps then Some l1 else getParent s3 m)" for m
    by (simp add: s4_def prev3 getParent_appendAll)
  have pl3: "getChildren s3 pl = ps @ t # ns" "getChildren s3 l1 = []"
    using old by (simp_all add: C3 kids new_defs)
  have ca4: "getChildren (appendAll s3 l1 ps) m =
              (if m = l1 then getChildren s3 l1 @ ps
               else if m = pl then filter (\<lambda>c. c \<notin> set ps) (getChildren s3 pl)
               else getChildren s3 m)" for m
    using dist old by (intro getChildren_appendAll [OF _ pp3]) (simp_all add: new_defs)
  have C4: "getChildren s4 m =
              (if m = l1 then ps else if m = pl then t # ns else getChildren s3 m)" for m
    unfolding s4_def prev3 ca4 pl3 filter_notin_prefix [OF dist] by simp
  have K4: "node_kind (nodes s4 m) = node_kind (nodes s3 m)"
    and F4: "fresh s4 = w2" for m
    by (simp_all add: s4_def F3)
  define s7 where
    "s7 = append (snd (createListNode (snd (createListItemNode s4)) tg)) w2 l2"
  have P7: "getParent s7 m = (if m = l2 then Some w2 else if m = w2 then None else getParent s4 m)"
    and C7: "getChildren s7 m = (if m = w2 then [l2] else if m = l2 then [] else getChildren s4 m)"
    and K7: "node_kind (nodes s7 m) =
               (if m = l2 then ListNode tg else if m = w2 then ListItemNode
                else node_kind (nodes s4 m))" for m
    by (auto simp: s7_def F4 new_defs createListNode_def createListItemNode_def)
  have tps: "t \<notin> set ps" "t \<notin> set ns" using dist by auto
  have next7: "getNextSiblings s7 t = ns"
    using told old tps by (simp add: getNextSiblings_def P7 P4 P3 C7 C4 par new_defs)
  define s8 where "s8 = appendAll s7 l2 (getNextSiblings s7 t)"
  have nps: "\<forall>c\<in>set ns. c \<notin> set ps" using dist by auto
  have pp7: "\<forall>c\<in>set ns. getParent s7 c = Some pl"
    using nsold nps by (auto simp: P7 P4 P3 new_defs)
  have P8: "getParent s8 m = (if m \<in> set ns then Some l2 else getParent s7 m)" for m
    by (simp add: s8_def next7 getParent_appendAll)
  have pl7: "getChildren s7 pl = t # ns" "getChildren s7 l2 = []"
    using old by (simp_all add: C7 C4 new_defs)
  have dist2: "distinct (t # ns)" using dist by simp
  have ca8: "getChildren (appendAll s7 l2 ns) m =
              (if m = l2 then getChildren s7 l2 @ ns
               else if m = pl then filter (\<lambda>c. c \<notin> set ns) (getChildren s7 pl)
               else getChildren s7 m)" for m
    using dist old by (intro getChildren_appendAll [OF _ pp7]) (simp_all add: new_defs)
  have C8: "getChildren s8 m =
              (if m = l2 then ns else if m = pl then [t] else getChildren s7 m)" for m
    unfolding s8_def next7 ca8 pl7 filter_notin_suffix [OF dist2] by simp
  have K8: "node_kind (nodes s8 m) = node_kind (nodes s7 m)" for m
    by (simp add: s8_def)
  have split: "outdentSplit s t gp tg =
      (case insertBefore s8 gp w1 of
         None \<Rightarrow> None
       | Some s9 \<Rightarrow>
           (case insertAfter s9 gp w2 of
              None \<Rightarrow> None
            | Some s10 \<Rightarrow> replace s10 gp t))"
    unfolding outdentSplit_def Let_def
    by (simp add: split_beta s8_def s7_def s4_def s3_def new_defs createListItemNode_def
        createListNode_def cong: option.case_cong)
  have gpn: "gp \<notin> set ps" "gp \<notin> set ns"
    using psold nsold par neq by auto
  have nw: "w1 \<noteq> gp" "w2 \<noteq> gp" "l1 \<noteq> gp" "l2 \<noteq> gp" "w1 \<noteq> ggp" "w2 \<noteq> ggp" "l1 \<noteq> ggp"
    "l2 \<noteq> ggp" "w1 \<noteq> pl" "w2 \<noteq> pl" "l1 \<noteq> pl" "l2 \<noteq> pl" "w1 \<noteq> t" "w2 \<noteq> t" "l1 \<noteq> t"
    "l2 \<noteq> t" "w1 \<noteq> w2" "w1 \<noteq> l1" "w1 \<noteq> l2" "w2 \<noteq> l1" "w2 \<noteq> l2" "l1 \<noteq> l2"
    using old told by (simp_all add: new_defs)
  have nwl: "w1 \<notin> set ps" "w1 \<notin> set ns" "w2 \<notin> set ps" "w2 \<notin> set ns" "l1 \<notin> set ps"
    "l1 \<notin> set ns" "l2 \<notin> set ps" "l2 \<notin> set ns" "w1 \<notin> set xs" "w1 \<notin> set ys"
    "w2 \<notin> set xs" "w2 \<notin> set ys"
    using psold nsold xsold by (auto simp: new_defs)
  have w18: "getParent s8 w1 = None" and gp8: "getParent s8 gp = Some ggp"
    and ggp8: "getChildren s8 ggp = xs @ gp # ys"
    using nw nwl gpn by (simp_all add: P8 P7 P4 P3 C8 C7 C4 C3 par pos neq)
  define s9 where "s9 = setParent (setChildren s8 ggp (xs @ w1 # gp # ys)) w1 (Some ggp)"
  have ib: "insertBefore s8 gp w1 = Some s9"
    using d by (simp add: insertBefore_detached [OF w18 gp8] ggp8 s9_def)
  have w29: "getParent s9 w2 = None" and gp9: "getParent s9 gp = Some ggp"
    and ggp9: "getChildren s9 ggp = xs @ w1 # gp # ys"
    using nw nwl gpn by (simp_all add: s9_def P8 P7 P4 P3 par)
  define s10 where "s10 = setParent (setChildren s9 ggp (xs @ w1 # gp # w2 # ys)) w2 (Some ggp)"
  have ia: "insertAfter s9 gp w2 = Some s10"
    using d nw
    by (simp add: insertAfter_detached [OF w29 gp9] ggp9 s10_def takeWhile_neq_split2
        dropWhile_neq_split2)
  have t10: "getParent s10 t = Some pl" and gp10: "getParent s10 gp = Some ggp"
    and ggp10: "getChildren s10 ggp = (xs @ [w1]) @ gp # w2 # ys"
    and pl10: "getChildren s10 pl = [t]"
    using nw nwl gpn tps neq
    by (simp_all add: s10_def s9_def P8 P7 P4 P3 C8 C7 C4 C3 par)
  define s11 where
    "s11 = setParent (setParent (setChildren (removeFromParent s10 t) ggp
             (xs @ w1 # t # w2 # ys)) gp None) t (Some ggp)"
  have rp: "replace s10 gp t = Some s11"
    using d nw neq t10 gp10 pl10
    by (simp add: replace_def Let_def ggp10 s11_def map_replace_split map_replace_notin)
  have res: "outdentSplit s t gp tg = Some s11"
    by (simp add: split ib ia rp)
  have e: "fresh s = w1" "w1 + 1 = l1" "w1 + 2 = w2" "w1 + 3 = l2"
    by (simp_all add: new_defs)
  have F11: "fresh s11 = fresh s + 4"
    by (simp add: s11_def s10_def s9_def s8_def s7_def s4_def s3_def createListItemNode_def
        createListNode_def)
  have P11: "getParent s11 m =
               (if m = t then Some ggp
                else if m = gp then None
                else if m = w1 \<or> m = w2 then Some ggp
                else if m = l1 then Some w1
                else if m = l2 then Some w2
                else if m \<in> set ps then Some l1
                else if m \<in> set ns then Some l2
                else getParent s m)" for m
    using nw nwl nps by (auto simp: s11_def s10_def s9_def P8 P7 P4 P3)
  have C11: "getChildren s11 m =
               (if m = ggp then xs @ [w1, t, w2] @ ys
                else if m = pl then []
                else if m = w1 then [l1]
                else if m = l1 then ps
                else if m = w2 then [l2]
                else if m = l2 then ns
                else getChildren s m)" for m
    using nw neq t10 pl10 by (auto simp: s11_def s10_def s9_def C8 C7 C4 C3)
  have K11: "node_kind (nodes s11 m) =
               (if m = w1 \<or> m = w2 then ListItemNode
                else if m = l1 \<or> m = l2 then ListNode tg
                else node_kind (nodes s m))" for m
    using nw by (auto simp: s11_def s10_def s9_def K8 K7 K4 K3)
  show ?thesis unfolding e using res F11 [unfolded e] P11 C11 K11 by blast
qed

lemma outdent_interior_frame:
  assumes ind: "indented s t pl gp ggp"
    and nn: "\<not> isNestedListNode s (Some t)"
    and kids: "getChildren s pl = ps @ t # ns" and interior: "ps \<noteq> []" "ns \<noteq> []"
    and pos: "getChildren s ggp = xs @ gp # ys"
    and sib: "\<forall>c\<in>set (getChildren s pl). getParent s c = Some pl \<and> c < fresh s"
    and old: "pl < fresh s" "gp < fresh s" "ggp < fresh s"
    and oldc: "\<forall>c\<in>set (getChildren s ggp). c < fresh s"
    and tag: "getTag s pl = Some tg"
  shows "\<exists>s'. outdentListItem s t = Some s' \<and> fresh s' = fresh s + 4 \<and>
           (\<forall>m. getParent s' m =
                  (if m = t then Some ggp
                   else if m = gp then None
                   else if m = fresh s \<or> m = fresh s + 2 then Some ggp
                   else if m = fresh s + 1 then Some (fresh s)
                   else if m = fresh s + 3 then Some (fresh s + 2)
                   else if m \<in> set ps then Some (fresh s + 1)
                   else if m \<in> set ns then Some (fresh s + 3)
                   else getParent s m)) \<and>
           (\<forall>m. getChildren s' m =
                  (if m = ggp then xs @ [fresh s, t, fresh s + 2] @ ys
                   else if m = pl then []
                   else if m = fresh s then [fresh s + 1]
                   else if m = fresh s + 1 then ps
                   else if m = fresh s + 2 then [fresh s + 3]
                   else if m = fresh s + 3 then ns
                   else getChildren s m)) \<and>
           (\<forall>m. node_kind (nodes s' m) =
                  (if m = fresh s \<or> m = fresh s + 2 then ListItemNode
                   else if m = fresh s + 1 \<or> m = fresh s + 3 then ListNode tg
                   else node_kind (nodes s m)))"
proof -
  from ind have par:
    "getParent s t = Some pl" "getParent s pl = Some gp" "getParent s gp = Some ggp"
    by (auto simp: indented_def)
  from ind kids have dist: "distinct (ps @ t # ns)" by (simp add: indented_def)
  have nf: "Some t \<noteq> getFirstChild s pl"
    using interior(1) dist by (cases ps) (auto simp: getFirstChild_def kids)
  have nl: "Some t \<noteq> getLastChild s pl"
    using interior(2) dist by (cases ns rule: rev_cases) (auto simp: getLastChild_def kids)
  from outdentSplit_frame [OF ind kids pos sib old oldc, of tg]
  obtain s1 where s1: "outdentSplit s t gp tg = Some s1"
    and F: "fresh s1 = fresh s + 4"
    and P: "\<And>m. getParent s1 m =
                  (if m = t then Some ggp
                   else if m = gp then None
                   else if m = fresh s \<or> m = fresh s + 2 then Some ggp
                   else if m = fresh s + 1 then Some (fresh s)
                   else if m = fresh s + 3 then Some (fresh s + 2)
                   else if m \<in> set ps then Some (fresh s + 1)
                   else if m \<in> set ns then Some (fresh s + 3)
                   else getParent s m)"
    and C: "\<And>m. getChildren s1 m =
                  (if m = ggp then xs @ [fresh s, t, fresh s + 2] @ ys
                   else if m = pl then []
                   else if m = fresh s then [fresh s + 1]
                   else if m = fresh s + 1 then ps
                   else if m = fresh s + 2 then [fresh s + 3]
                   else if m = fresh s + 3 then ns
                   else getChildren s m)"
    and K: "\<And>m. node_kind (nodes s1 m) =
                  (if m = fresh s \<or> m = fresh s + 2 then ListItemNode
                   else if m = fresh s + 1 \<or> m = fresh s + 3 then ListNode tg
                   else node_kind (nodes s m))"
    by blast
  have "outdentListItem s t =
          Some (markAllDirty (markAllDirty s1 (getChildren s1 pl))
                  (getChildren (markAllDirty s1 (getChildren s1 pl)) ggp))"
    unfolding outdentListItem_def Let_def
    using nn par outdent_guard [OF ind] nf nl by (simp add: tag s1)
  then show ?thesis using F P C K by simp
qed

text \<open>
  Claim C3, as amended. A target that is not itself a nested-list wrapper, has the
  ancestry List, ListItem, List and is neither the first nor the last child of its parent
  List: outdent puts three siblings at the grandparent ListItem's position in the
  great-grandparent List, in this order: a new ListItem wrapping a new List (with the tag
  of the parent List) that holds the target's preceding siblings, the target itself, and
  a new ListItem wrapping a new List (same tag) that holds the target's following
  siblings. The grandparent ListItem is detached.
\<close>

theorem outdent_interior_splits:
  assumes ind: "indented s t pl gp ggp"
    and nn: "\<not> isNestedListNode s (Some t)"
    and kids: "getChildren s pl = ps @ t # ns" and interior: "ps \<noteq> []" "ns \<noteq> []"
    and pos: "getChildren s ggp = xs @ gp # ys"
    and sib: "\<forall>c\<in>set (getChildren s pl). getParent s c = Some pl \<and> c < fresh s"
    and old: "pl < fresh s" "gp < fresh s" "ggp < fresh s"
    and oldc: "\<forall>c\<in>set (getChildren s ggp). c < fresh s"
  shows "\<exists>s'. outdentListItem s t = Some s' \<and>
           getChildren s' ggp = xs @ [fresh s, t, fresh s + 2] @ ys \<and>
           isListItemNode s' (Some (fresh s)) \<and>
           getChildren s' (fresh s) = [fresh s + 1] \<and>
           getTag s' (fresh s + 1) = getTag s pl \<and> isListNode s' (Some (fresh s + 1)) \<and>
           getChildren s' (fresh s + 1) = ps \<and>
           isListItemNode s' (Some (fresh s + 2)) \<and>
           getChildren s' (fresh s + 2) = [fresh s + 3] \<and>
           getTag s' (fresh s + 3) = getTag s pl \<and> isListNode s' (Some (fresh s + 3)) \<and>
           getChildren s' (fresh s + 3) = ns \<and>
           getParent s' t = Some ggp \<and> getParent s' gp = None \<and>
           getParent s' (fresh s) = Some ggp \<and> getParent s' (fresh s + 2) = Some ggp \<and>
           getParent s' (fresh s + 1) = Some (fresh s) \<and>
           getParent s' (fresh s + 3) = Some (fresh s + 2) \<and>
           (\<forall>c\<in>set ps. getParent s' c = Some (fresh s + 1)) \<and>
           (\<forall>c\<in>set ns. getParent s' c = Some (fresh s + 3))"
proof -
  from outdent_guard(3) [OF ind] obtain tg where tg: "getTag s pl = Some tg"
    by (auto simp: isListNode_def getTag_def split: kind.splits)
  from ind kids have dist: "distinct (ps @ t # ns)" by (simp add: indented_def)
  from ind have par: "getParent s gp = Some ggp" by (simp add: indented_def)
  from sib kids have olds: "t < fresh s" "\<forall>c\<in>set ps. c < fresh s \<and> getParent s c = Some pl"
    "\<forall>c\<in>set ns. c < fresh s \<and> getParent s c = Some pl" by auto
  have gpn: "gp \<notin> set ps" "gp \<notin> set ns"
    using olds par indented_neq [OF ind] by auto
  from outdent_interior_frame [OF ind nn kids interior pos sib old oldc tg]
  obtain s' where o: "outdentListItem s t = Some s'"
    and P: "\<And>m. getParent s' m =
                  (if m = t then Some ggp
                   else if m = gp then None
                   else if m = fresh s \<or> m = fresh s + 2 then Some ggp
                   else if m = fresh s + 1 then Some (fresh s)
                   else if m = fresh s + 3 then Some (fresh s + 2)
                   else if m \<in> set ps then Some (fresh s + 1)
                   else if m \<in> set ns then Some (fresh s + 3)
                   else getParent s m)"
    and C: "\<And>m. getChildren s' m =
                  (if m = ggp then xs @ [fresh s, t, fresh s + 2] @ ys
                   else if m = pl then []
                   else if m = fresh s then [fresh s + 1]
                   else if m = fresh s + 1 then ps
                   else if m = fresh s + 2 then [fresh s + 3]
                   else if m = fresh s + 3 then ns
                   else getChildren s m)"
    and K: "\<And>m. node_kind (nodes s' m) =
                  (if m = fresh s \<or> m = fresh s + 2 then ListItemNode
                   else if m = fresh s + 1 \<or> m = fresh s + 3 then ListNode tg
                   else node_kind (nodes s m))"
    by blast
  have c: "getChildren s' ggp = xs @ [fresh s, t, fresh s + 2] @ ys"
    "getChildren s' (fresh s) = [fresh s + 1]" "getChildren s' (fresh s + 1) = ps"
    "getChildren s' (fresh s + 2) = [fresh s + 3]" "getChildren s' (fresh s + 3) = ns"
    using old by (simp_all add: C)
  have k: "isListItemNode s' (Some (fresh s))" "isListItemNode s' (Some (fresh s + 2))"
    "getTag s' (fresh s + 1) = getTag s pl" "getTag s' (fresh s + 3) = getTag s pl"
    "isListNode s' (Some (fresh s + 1))" "isListNode s' (Some (fresh s + 3))"
    using tg by (simp_all add: isListItemNode_def isListNode_def getTag_def K)
  have p: "getParent s' t = Some ggp" "getParent s' gp = None"
    "getParent s' (fresh s) = Some ggp" "getParent s' (fresh s + 2) = Some ggp"
    "getParent s' (fresh s + 1) = Some (fresh s)"
    "getParent s' (fresh s + 3) = Some (fresh s + 2)"
    using old olds(1) indented_neq [OF ind] by (simp_all add: P)
  have q: "\<forall>c\<in>set ps. getParent s' c = Some (fresh s + 1)"
    "\<forall>c\<in>set ns. getParent s' c = Some (fresh s + 3)"
    using olds dist gpn by (auto simp: P)
  from o c k p q show ?thesis by simp
qed

theorem outdent_interior_splits_witness:
  "indented splitState 5 2 1 0 \<and> \<not> isNestedListNode splitState (Some 5) \<and>
   getChildren splitState 2 = [3, 4] @ 5 # [6] \<and> getChildren splitState 0 = [] @ 1 # [] \<and>
   (\<exists>s'. outdentListItem splitState 5 = Some s' \<and> getChildren s' 0 = [7, 5, 9] \<and>
         getChildren s' 7 = [8] \<and> getChildren s' 8 = [3, 4] \<and>
         getChildren s' 9 = [10] \<and> getChildren s' 10 = [6] \<and>
         getTag s' 8 = Some OL \<and> getTag s' 10 = Some OL)"
proof -
  have h1: "indented splitState 5 2 1 0"
    by (simp add: indented_def isListNode_def isListItemNode_def getParent_def getChildren_def
        splitState_def storeOf_def)
  have h2: "\<not> isNestedListNode splitState (Some 5)"
    by (simp add: isNestedListNode_def isListNode_def isListItemNode_def getFirstChild_def
        getChildren_def splitState_def storeOf_def)
  have h3: "getChildren splitState 2 = [3, 4] @ 5 # [6]"
    by (simp add: getChildren_def splitState_def storeOf_def)
  have h4: "([3, 4] :: nat list) \<noteq> []" "([6] :: nat list) \<noteq> []" by simp_all
  have h5: "getChildren splitState 0 = [] @ 1 # []"
    by (simp add: getChildren_def splitState_def storeOf_def)
  have h6: "\<forall>c\<in>set (getChildren splitState 2).
              getParent splitState c = Some 2 \<and> c < fresh splitState"
    by (simp add: getChildren_def getParent_def splitState_def storeOf_def)
  have h7: "2 < fresh splitState" "1 < fresh splitState" "0 < fresh splitState"
    by (simp_all add: splitState_def storeOf_def)
  have h8: "\<forall>c\<in>set (getChildren splitState 0). c < fresh splitState"
    by (simp add: getChildren_def splitState_def storeOf_def)
  have f: "fresh splitState = 7" "getTag splitState 2 = Some OL"
    by (simp_all add: getTag_def splitState_def storeOf_def)
  from outdent_interior_splits [OF h1 h2 h3 h4 h5 h6 h7 h8] h1 h2 h3 h5
  show ?thesis unfolding f by auto
qed


text \<open>
  Claim C3 as stated fails: in \<open>deepState\<close> the item 4 has the ancestry List 2,
  ListItem 1, List 0 and is an interior child of 2, but it is itself a nested-list
  wrapper, and outdent leaves the tree as it is.
\<close>

theorem outdent_interior_wrapper_counterexample:
  "indented deepState 4 2 1 0 \<and> getChildren deepState 2 = [3, 4, 5] \<and>
   outdentListItem deepState 4 = Some deepState \<and>
   handleOutdent deepState [4] = Some deepState"
  by (simp add: indented_def outdentListItem_def handleOutdent_def isNestedListNode_def
      isListNode_def isListItemNode_def getFirstChild_def getParent_def getChildren_def
      deepState_def storeOf_def)

section \<open>Indent next to one nested list\<close>

text \<open>
  Claim C8, as amended. A target that is not itself a nested-list wrapper, whose next
  sibling is a nested-list wrapper while its previous sibling is not, and whose next
  sibling's inner List has a first child, becomes the new first child of that inner
  List, placed before the former first child. (When the inner List is empty the target
  stays where it is: see the counterexample.)
\<close>

theorem indent_into_next:
  assumes nn: "\<not> isNestedListNode s (Some t)"
    and par: "getParent s t = Some p"
    and nxt: "getNextSibling s t = Some ns"
    and nnest: "isNestedListNode s (Some ns)"
    and pnest: "\<not> isNestedListNode s (getPreviousSibling s t)"
    and inner: "getFirstChild s ns = Some il"
    and fc: "getFirstChild s il = Some f"
    and fpar: "getParent s f = Some il"
    and neq: "il \<noteq> p"
  shows "\<exists>s'. indentListItem s t = Some s' \<and>
           getChildren s' il = t # getChildren s il \<and>
           getFirstChild s' il = Some t \<and>
           getParent s' t = Some il \<and>
           getChildren s' p = removeAll t (getChildren s p)"
proof -
  from fc obtain rest where cs: "getChildren s il = f # rest"
    by (auto simp: getFirstChild_def split: list.splits)
  from fpar par neq have ft: "f \<noteq> t" by auto
  from nnest inner have il: "isListNode s (Some il)"
    by (simp add: isNestedListNode_def)
  have ib: "insertBefore s f t =
              Some (setParent (setChildren (removeFromParent s t) il (t # f # rest))
                      t (Some il))"
    using par fpar ft neq cs by (simp add: insertBefore_def Let_def)
  have mn: "indentMergeNext s t ns =
              Some (markAllDirty (setParent (setChildren (removeFromParent s t) il (t # f # rest))
                      t (Some il)) (t # f # rest))"
    using inner il fc by (simp add: indentMergeNext_def ib)
  show ?thesis
    unfolding indentListItem_def Let_def
    using nn nxt nnest pnest par neq cs
    by (simp add: mn getFirstChild_def isListNode_def split: option.splits)
qed

theorem indent_into_next_witness:
  "\<not> isNestedListNode nextState (Some 1) \<and> getNextSibling nextState 1 = Some 2 \<and>
   isNestedListNode nextState (Some 2) \<and>
   \<not> isNestedListNode nextState (getPreviousSibling nextState 1) \<and>
   getFirstChild nextState 3 = Some 4 \<and>
   (\<exists>s'. indentListItem nextState 1 = Some s' \<and> getChildren s' 3 = [1, 4] \<and>
         getParent s' 1 = Some 3 \<and> getChildren s' 0 = [2])"
proof -
  have h1: "\<not> isNestedListNode nextState (Some 1)" by code_simp
  have h2: "getParent nextState 1 = Some 0" by code_simp
  have h3: "getNextSibling nextState 1 = Some 2" by code_simp
  have h4: "isNestedListNode nextState (Some 2)" by code_simp
  have h5: "\<not> isNestedListNode nextState (getPreviousSibling nextState 1)" by code_simp
  have h6: "getFirstChild nextState 2 = Some 3" by code_simp
  have h7: "getFirstChild nextState 3 = Some 4" by code_simp
  have h8: "getParent nextState 4 = Some 3" by code_simp
  have h9: "(3::nat) \<noteq> 0" by simp
  have c: "getChildren nextState 3 = [4]" "getChildren nextState 0 = [1, 2]"
    by (simp_all add: getChildren_def nextState_def storeOf_def)
  from indent_into_next [OF h1 h2 h3 h4 h5 h6 h7 h8 h9] h1 h3 h4 h5 h7
  show ?thesis unfolding c by auto
qed

text \<open>
  Claim C8 as stated fails: in \<open>emptyInnerState\<close> the next sibling 2 of the item 1
  is a nested-list wrapper whose inner List 3 is empty; indenting 1 inserts it nowhere.
\<close>

theorem indent_into_empty_next_counterexample:
  "\<not> isNestedListNode emptyInnerState (Some 1) \<and>
   getNextSibling emptyInnerState 1 = Some 2 \<and>
   isNestedListNode emptyInnerState (Some 2) \<and>
   \<not> isNestedListNode emptyInnerState (getPreviousSibling emptyInnerState 1) \<and>
   getFirstChild emptyInnerState 2 = Some 3 \<and>
   getChildrenOpt (handleIndent emptyInnerState [1]) 3 = Some [] \<and>
   getChildrenOpt (handleIndent emptyInnerState [1]) 0 = Some [1, 2] \<and>
   getParentOpt (handleIndent emptyInnerState [1]) 1 = Some (Some 0)"
  by code_simp

section \<open>Indent followed by outdent\<close>

text \<open>
  What one indent or outdent of a target does to every node of the tree, branch by
  branch: the parent, the children and the kind of each node afterwards.
\<close>

lemma outdent_first_frame:
  assumes ind: "indented s t pl gp ggp"
    and nn: "\<not> isNestedListNode s (Some t)"
    and first: "getFirstChild s pl = Some t"
    and pos: "getChildren s ggp = xs @ gp # ys"
  shows "\<exists>s'. outdentListItem s t = Some s' \<and> fresh s' = fresh s \<and>
           (\<forall>m. getParent s' m =
                  (if m = t then Some ggp
                   else if m = gp \<and> tl (getChildren s pl) = [] then None
                   else getParent s m)) \<and>
           (\<forall>m. getChildren s' m =
                  (if m = pl then tl (getChildren s pl)
                   else if m = ggp then
                     (if tl (getChildren s pl) = [] then xs @ t # ys else xs @ t # gp # ys)
                   else getChildren s m)) \<and>
           (\<forall>m. node_kind (nodes s' m) = node_kind (nodes s m))"
proof -
  note neq = indented_neq [OF ind]
  from ind have par:
    "getParent s t = Some pl" "getParent s pl = Some gp" "getParent s gp = Some ggp"
    by (auto simp: indented_def)
  from ind pos have d: "gp \<notin> set xs" "gp \<notin> set ys" by (auto simp: indented_def)
  from first obtain rest where cs: "getChildren s pl = t # rest"
    by (auto simp: getFirstChild_def split: list.splits)
  with ind have trest: "t \<notin> set rest" by (auto simp: indented_def)
  have ib: "insertBefore s gp t =
              Some (setParent (setChildren (removeFromParent s t) ggp (xs @ t # gp # ys))
                      t (Some ggp))"
    using par neq d pos by (simp add: insertBefore_def Let_def)
  show ?thesis
    unfolding outdentListItem_def Let_def
    using nn par outdent_guard [OF ind] first neq d pos cs trest
    by (auto simp: ib isEmpty_def)
qed

lemma outdent_last_frame:
  assumes ind: "indented s t pl gp ggp"
    and nn: "\<not> isNestedListNode s (Some t)"
    and kids: "getChildren s pl = ps @ [t]" and notfirst: "ps \<noteq> []"
    and pos: "getChildren s ggp = xs @ gp # ys"
  shows "\<exists>s'. outdentListItem s t = Some s' \<and> fresh s' = fresh s \<and>
           (\<forall>m. getParent s' m = (if m = t then Some ggp else getParent s m)) \<and>
           (\<forall>m. getChildren s' m =
                  (if m = pl then ps
                   else if m = ggp then xs @ gp # t # ys
                   else getChildren s m)) \<and>
           (\<forall>m. node_kind (nodes s' m) = node_kind (nodes s m))"
proof -
  note neq = indented_neq [OF ind]
  from ind have par:
    "getParent s t = Some pl" "getParent s pl = Some gp" "getParent s gp = Some ggp"
    by (auto simp: indented_def)
  from ind pos have d: "gp \<notin> set xs" "gp \<notin> set ys" by (auto simp: indented_def)
  from ind kids have tps: "t \<notin> set ps" by (auto simp: indented_def)
  have nf: "Some t \<noteq> getFirstChild s pl"
    using notfirst tps by (cases ps) (auto simp: getFirstChild_def kids)
  have l: "Some t = getLastChild s pl"
    by (simp add: getLastChild_def kids)
  have ia: "insertAfter s gp t =
              Some (setParent (setChildren (removeFromParent s t) ggp (xs @ gp # t # ys))
                      t (Some ggp))"
    using par neq d pos by (simp add: insertAfter_def Let_def)
  show ?thesis
    unfolding outdentListItem_def Let_def
    using nn par outdent_guard [OF ind] nf l neq d pos kids tps notfirst
    by (auto simp: ia isEmpty_def)
qed

lemma indent_next_frame:
  assumes nn: "\<not> isNestedListNode s (Some t)"
    and par: "getParent s t = Some p"
    and nxt: "getNextSibling s t = Some ns"
    and nnest: "isNestedListNode s (Some ns)"
    and pnest: "\<not> isNestedListNode s (getPreviousSibling s t)"
    and inner: "getFirstChild s ns = Some il"
    and fc: "getFirstChild s il = Some f"
    and fpar: "getParent s f = Some il"
    and neq: "il \<noteq> p"
  shows "\<exists>s'. indentListItem s t = Some s' \<and> fresh s' = fresh s \<and>
           (\<forall>m. getParent s' m = (if m = t then Some il else getParent s m)) \<and>
           (\<forall>m. getChildren s' m =
                  (if m = il then t # getChildren s il
                   else if m = p then removeAll t (getChildren s p)
                   else getChildren s m)) \<and>
           (\<forall>m. node_kind (nodes s' m) = node_kind (nodes s m))"
proof -
  from fc obtain rest where cs: "getChildren s il = f # rest"
    by (auto simp: getFirstChild_def split: list.splits)
  from fpar par neq have ft: "f \<noteq> t" by auto
  from nnest inner have il: "isListNode s (Some il)"
    by (simp add: isNestedListNode_def)
  have ib: "insertBefore s f t =
              Some (setParent (setChildren (removeFromParent s t) il (t # f # rest))
                      t (Some il))"
    using par fpar ft neq cs by (simp add: insertBefore_def Let_def)
  have mn: "indentMergeNext s t ns =
              Some (markAllDirty (setParent (setChildren (removeFromParent s t) il (t # f # rest))
                      t (Some il)) (t # f # rest))"
    using inner il fc by (simp add: indentMergeNext_def ib)
  show ?thesis
    unfolding indentListItem_def Let_def
    using nn nxt nnest pnest par neq cs
    by (auto simp: mn getFirstChild_def isListNode_def split: option.splits)
qed

lemma indent_previous_frame:
  assumes nn: "\<not> isNestedListNode s (Some t)"
    and par: "getParent s t = Some p"
    and prv: "getPreviousSibling s t = Some ps"
    and pnest: "isNestedListNode s (Some ps)"
    and nnest: "\<not> isNestedListNode s (getNextSibling s t)"
    and inner: "getFirstChild s ps = Some il"
    and neq: "il \<noteq> p"
  shows "\<exists>s'. indentListItem s t = Some s' \<and> fresh s' = fresh s \<and>
           (\<forall>m. getParent s' m = (if m = t then Some il else getParent s m)) \<and>
           (\<forall>m. getChildren s' m =
                  (if m = il then getChildren s il @ [t]
                   else if m = p then removeAll t (getChildren s p)
                   else getChildren s m)) \<and>
           (\<forall>m. node_kind (nodes s' m) = node_kind (nodes s m))"
proof -
  from pnest inner have il: "isListNode s (Some il)"
    by (simp add: isNestedListNode_def)
  show ?thesis
    unfolding indentListItem_def Let_def
    using nn prv nnest pnest par neq il inner
    by (auto simp: indentMergePrevious_def Let_def isListNode_def split: option.splits)
qed


lemma takeWhile_neq_last:
  "x \<notin> set xs \<Longrightarrow> takeWhile (\<lambda>c. c \<noteq> x) (xs @ x # ys) = xs"
  by simp

lemma getPreviousSibling_at:
  assumes "getParent s t = Some p" and "getChildren s p = xs @ t # ys" and "t \<notin> set xs"
  shows "getPreviousSibling s t = (if xs = [] then None else Some (last xs))"
  using assms
  by (cases xs rule: rev_cases)
    (simp_all add: getPreviousSibling_def getPreviousSiblings_def takeWhile_neq_split2)

lemma getNextSibling_at:
  assumes "getParent s t = Some p" and "getChildren s p = xs @ t # ys" and "t \<notin> set xs"
  shows "getNextSibling s t = (case ys of [] \<Rightarrow> None | y # _ \<Rightarrow> Some y)"
  using assms by (simp add: getNextSibling_def getNextSiblings_def split: list.splits)

lemma indent_create_frame:
  assumes nn: "\<not> isNestedListNode s (Some t)"
    and li: "isListItemNode s (Some t)"
    and par: "getParent s t = Some p"
    and tag: "getTag s p = Some tg"
    and pos: "getChildren s p = xs @ t # ys"
    and dist: "distinct (getChildren s p)"
    and sibs: "\<forall>c\<in>set (getChildren s p). getParent s c = Some p \<and> c < fresh s"
    and pold: "p < fresh s"
    and pnest: "\<not> isNestedListNode s (getPreviousSibling s t)"
    and nnest: "\<not> isNestedListNode s (getNextSibling s t)"
  shows "\<exists>s'. indentListItem s t = Some s' \<and> fresh s' = fresh s + 2 \<and>
           (\<forall>m. getParent s' m =
                  (if m = t then Some (fresh s + 1)
                   else if m = fresh s + 1 then Some (fresh s)
                   else if m = fresh s then Some p
                   else getParent s m)) \<and>
           (\<forall>m. getChildren s' m =
                  (if m = p then xs @ fresh s # ys
                   else if m = fresh s then [fresh s + 1]
                   else if m = fresh s + 1 then [t]
                   else getChildren s m)) \<and>
           (\<forall>m. node_kind (nodes s' m) =
                  (if m = fresh s then ListItemNode
                   else if m = fresh s + 1 then ListNode tg
                   else node_kind (nodes s m)))"
proof -
  from pos dist have txs: "t \<notin> set xs" "t \<notin> set ys" "distinct xs" "distinct ys"
    "set xs \<inter> set ys = {}" by auto
  from sibs pos have told: "t < fresh s" by simp
  from sibs pos have xsold: "\<forall>c\<in>set xs. c < fresh s \<and> getParent s c = Some p"
    and ysold: "\<forall>c\<in>set ys. c < fresh s \<and> getParent s c = Some p" by auto
  define W where "W = fresh s"
  define L where "L = Suc (fresh s)"
  note new_defs = W_def L_def
  have tp: "t \<noteq> p"
    using li tag by (auto simp: isListItemNode_def getTag_def split: kind.splits)
  have nwx: "W \<notin> set xs" "L \<notin> set xs" using xsold by (auto simp: new_defs)
  have nwy: "W \<notin> set ys" "L \<notin> set ys" using ysold by (auto simp: new_defs)
  have nw: "W \<noteq> L" "W \<noteq> t" "L \<noteq> t" "W \<noteq> p" "L \<noteq> p" "W \<notin> set xs" "W \<notin> set ys"
    "L \<notin> set xs" "L \<notin> set ys" "t \<noteq> p"
    using told pold nwx nwy tp by (simp_all add: new_defs)
  define s4 where
    "s4 = append (append (snd (createListNode (snd (createListItemNode s)) tg)) W L) L t"
  have P4: "getParent s4 m =
              (if m = t then Some L else if m = L then Some W else if m = W then None
               else getParent s m)"
    and C4: "getChildren s4 m =
              (if m = L then [t] else if m = W then [L] else if m = p then xs @ ys
               else getChildren s m)"
    and K4: "node_kind (nodes s4 m) =
               (if m = L then ListNode tg else if m = W then ListItemNode
                else node_kind (nodes s m))"
    and F4: "fresh s4 = fresh s + 2" for m
    using nw txs
    by (auto simp: s4_def new_defs createListNode_def createListItemNode_def par pos)
  have prev: "getPreviousSibling s t = (if xs = [] then None else Some (last xs))"
    by (rule getPreviousSibling_at [OF par pos txs(1)])
  have nxt: "getNextSibling s t = (case ys of [] \<Rightarrow> None | y # _ \<Rightarrow> Some y)"
    by (rule getNextSibling_at [OF par pos txs(1)])
  define s5 where "s5 = setParent (setChildren s4 p (xs @ W # ys)) W (Some p)"
  have w4: "getParent s4 W = None" using nw by (simp add: P4)
  have place: "(case getPreviousSibling s t of
                  Some ps \<Rightarrow> insertAfter s4 ps W
                | None \<Rightarrow>
                    (case getNextSibling s t of
                       Some ns \<Rightarrow> insertBefore s4 ns W
                     | None \<Rightarrow> Some (append s4 p W))) = Some s5"
  proof (cases xs rule: rev_cases)
    case Nil
    show ?thesis
    proof (cases ys)
      case ysNil: Nil
      show ?thesis
        using Nil ysNil nw by (simp add: prev nxt append_def Let_def w4 C4 s5_def)
    next
      case (Cons y ys')
      have yp: "getParent s4 y = Some p"
        using ysold Cons nw txs by (auto simp: P4)
      show ?thesis
        using Nil Cons nw
        by (simp add: prev nxt insertBefore_detached [OF w4 yp] C4 s5_def)
    qed
  next
    case (snoc xs' x)
    have xp: "getParent s4 x = Some p"
      using xsold snoc nw txs by (auto simp: P4)
    have xx: "x \<notin> set xs'" using txs snoc by simp
    show ?thesis
      using snoc nw xx
      by (simp add: prev insertAfter_detached [OF w4 xp] C4 s5_def)
  qed
  have cn: "indentCreateNested s t (Some p) (getPreviousSibling s t) (getNextSibling s t) =
              Some s5"
    unfolding indentCreateNested_def
    using place
    by (simp add: tag Let_def split_beta s4_def new_defs createListItemNode_def
        createListNode_def cong: option.case_cong)
  have "indentListItem s t =
          Some (if isListNode s5 (Some p) then markAllDirty s5 (getChildren s5 p) else s5)"
    unfolding indentListItem_def Let_def using nn pnest nnest by (simp add: par cn)
  moreover have "fresh s = W" "W + 1 = L" by (simp_all add: new_defs)
  ultimately show ?thesis
    using nw by (auto simp: s5_def P4 C4 K4 F4)
qed


lemma handleIndent_single: "handleIndent s [t] = indentListItem s t"
  by (simp add: handleIndent_def split: option.splits)














section \<open>No content is lost\<close>

subsection \<open>Paths to the top of a tree\<close>

lemma path_top_iff: "getParent s n = None \<Longrightarrow> path s n r k \<longleftrightarrow> r = n \<and> k = 0"
  by (subst path.simps) auto

lemma path_up_iff:
  "getParent s n = Some p \<Longrightarrow> path s n r k \<longleftrightarrow> (\<exists>j. k = Suc j \<and> path s p r j)"
  by (subst path.simps) auto

lemma path_det: "path s n r k \<Longrightarrow> path s n r' k' \<Longrightarrow> r = r' \<and> k = k'"
proof (induction arbitrary: r' k' rule: path.induct)
  case (top n)
  then show ?case by (simp add: path_top_iff)
next
  case (up n p r k)
  from up.prems up.hyps(1) obtain j where "k' = Suc j" "path s p r' j"
    by (auto simp: path_up_iff)
  with up.IH [of r' j] show ?case by simp
qed

lemma path_transfer:
  assumes "path s n r k"
    and "\<And>m j. path s m r j \<Longrightarrow> j \<le> k \<Longrightarrow> getParent s' m = getParent s m"
  shows "path s' n r k"
  using assms
proof (induction rule: path.induct)
  case (top n)
  have "path s n n 0" using top.hyps by (rule path.top)
  then have "getParent s' n = getParent s n" by (rule top.prems) simp
  with top.hyps show ?case by (simp add: path.top)
next
  case (up n p r k)
  have "path s n r (Suc k)" using up.hyps by (rule path.up)
  then have "getParent s' n = getParent s n" by (rule up.prems) simp
  moreover have "path s' p r k"
  proof (rule up.IH)
    fix m j
    assume "path s m r j" "j \<le> k"
    then show "getParent s' m = getParent s m" using up.prems [of m j] by simp
  qed
  ultimately show ?case using up.hyps by (simp add: path.up)
qed

lemma path_keep:
  assumes "path s n r k" and "n \<notin> X"
    and unchanged: "\<And>m. m \<notin> M \<Longrightarrow> getParent s' m = getParent s m"
    and moved: "\<And>m r k. m \<in> M \<Longrightarrow> m \<notin> X \<Longrightarrow> path s m r k \<Longrightarrow> \<exists>k'. path s' m r k'"
    and closed: "\<And>m p. m \<notin> X \<Longrightarrow> m \<notin> M \<Longrightarrow> getParent s m = Some p \<Longrightarrow> p \<notin> X"
  shows "\<exists>k'. path s' n r k'"
  using assms(1,2)
proof (induction rule: path.induct)
  case (top n)
  have p: "path s n n 0" using top.hyps by (rule path.top)
  show ?case
  proof (cases "n \<in> M")
    case True
    from moved [OF True top.prems p] show ?thesis .
  next
    case False
    with unchanged top.hyps have "getParent s' n = None" by simp
    then have "path s' n n 0" by (rule path.top)
    then show ?thesis ..
  qed
next
  case (up n p r k)
  have pn: "path s n r (Suc k)" using up.hyps by (rule path.up)
  show ?case
  proof (cases "n \<in> M")
    case True
    from moved [OF True up.prems pn] show ?thesis .
  next
    case False
    from closed [OF up.prems False up.hyps(1)] have "p \<notin> X" .
    then obtain k' where "path s' p r k'" using up.IH by blast
    moreover have "getParent s' n = Some p" using False unchanged up.hyps by simp
    ultimately have "path s' n r (Suc k')" by (simp add: path.up)
    then show ?thesis ..
  qed
qed

subsection \<open>What a well-formed tree provides\<close>

lemma wf_parent_child:
  "wellFormed s \<Longrightarrow> getParent s n = Some p \<Longrightarrow> n \<in> set (getChildren s p)"
  unfolding wellFormed_def by blast

lemma wf_child_parent:
  "wellFormed s \<Longrightarrow> c \<in> set (getChildren s n) \<Longrightarrow> getParent s c = Some n"
  unfolding wellFormed_def by blast

lemma wf_distinct: "wellFormed s \<Longrightarrow> distinct (getChildren s n)"
  unfolding wellFormed_def by blast

lemma wf_blank:
  "wellFormed s \<Longrightarrow> fresh s \<le> n \<Longrightarrow> getParent s n = None \<and> getChildren s n = []"
  unfolding wellFormed_def by blast

lemma wf_sole:
  "wellFormed s \<Longrightarrow> isListItemNode s (Some n) \<Longrightarrow> c \<in> set (getChildren s n) \<Longrightarrow>
   isListNode s (Some c) \<Longrightarrow> getChildren s n = [c]"
  unfolding wellFormed_def by blast

lemma wf_item_parent:
  "wellFormed s \<Longrightarrow> isListItemNode s (Some n) \<Longrightarrow> getParent s n = Some p \<Longrightarrow>
   node_kind (nodes s p) \<noteq> ContentNode"
  unfolding wellFormed_def by blast

lemma wf_rooted: "wellFormed s \<Longrightarrow> \<exists>r k. path s n r k"
  unfolding wellFormed_def by blast

lemma wellFormed_allocated:
  assumes "wellFormed s"
  shows "c \<in> set (getChildren s n) \<Longrightarrow> c < fresh s \<and> n < fresh s"
    and "getParent s c = Some n \<Longrightarrow> c < fresh s \<and> n < fresh s"
proof -
  have *: "c < fresh s \<and> n < fresh s" if "c \<in> set (getChildren s n)" for c n
  proof -
    from that have "getParent s c = Some n" by (rule wf_child_parent [OF assms])
    then have "\<not> fresh s \<le> c" using wf_blank [OF assms, of c] by auto
    moreover have "\<not> fresh s \<le> n" using wf_blank [OF assms, of n] that by auto
    ultimately show ?thesis by simp
  qed
  show "c \<in> set (getChildren s n) \<Longrightarrow> c < fresh s \<and> n < fresh s" by (rule *)
  show "getParent s c = Some n \<Longrightarrow> c < fresh s \<and> n < fresh s"
    using wf_parent_child [OF assms] * by blast
qed

lemma path_root_allocated:
  assumes "wellFormed s"
  shows "path s n r k \<Longrightarrow> n < fresh s \<Longrightarrow> r < fresh s"
proof (induction rule: path.induct)
  case (top n)
  then show ?case by simp
next
  case (up n p r k)
  then show ?case using wellFormed_allocated(2) [OF assms] by blast
qed

lemma wellFormedI:
  assumes "\<And>n p. getParent s n = Some p \<Longrightarrow> n \<in> set (getChildren s p)"
    and "\<And>n c. c \<in> set (getChildren s n) \<Longrightarrow> getParent s c = Some n"
    and "\<And>n. distinct (getChildren s n)"
    and "\<And>n. fresh s \<le> n \<Longrightarrow> getParent s n = None \<and> getChildren s n = []"
    and "\<And>n c. isListItemNode s (Some n) \<Longrightarrow> c \<in> set (getChildren s n) \<Longrightarrow>
           isListNode s (Some c) \<Longrightarrow> getChildren s n = [c]"
    and "\<And>n p. isListItemNode s (Some n) \<Longrightarrow> getParent s n = Some p \<Longrightarrow>
           node_kind (nodes s p) \<noteq> ContentNode"
    and "\<And>n. \<exists>r k. path s n r k"
  shows "wellFormed s"
  unfolding wellFormed_def using assms by blast

lemma step_preserved:
  assumes wf: "wellFormed s"
    and I1: "\<And>n p. getParent s' n = Some p \<Longrightarrow> n \<in> set (getChildren s' p)"
    and I2: "\<And>n c. c \<in> set (getChildren s' n) \<Longrightarrow> getParent s' c = Some n"
    and I3: "\<And>n. distinct (getChildren s' n)"
    and I0: "\<And>n. fresh s' \<le> n \<Longrightarrow> getParent s' n = None \<and> getChildren s' n = []"
    and I4: "\<And>n c. isListItemNode s' (Some n) \<Longrightarrow> c \<in> set (getChildren s' n) \<Longrightarrow>
           isListNode s' (Some c) \<Longrightarrow> getChildren s' n = [c]"
    and I6: "\<And>n p. isListItemNode s' (Some n) \<Longrightarrow> getParent s' n = Some p \<Longrightarrow>
           node_kind (nodes s' p) \<noteq> ContentNode"
    and fr: "fresh s \<le> fresh s'"
    and kinds: "\<And>n. n < fresh s \<Longrightarrow> node_kind (nodes s' n) = node_kind (nodes s n)"
    and newkind: "\<And>n. fresh s \<le> n \<Longrightarrow> n < fresh s' \<Longrightarrow>
           node_kind (nodes s' n) \<noteq> ContentNode"
    and content_children: "\<And>c. c < fresh s \<Longrightarrow> node_kind (nodes s c) = ContentNode \<Longrightarrow>
           getChildren s' c = getChildren s c"
    and unchanged: "\<And>m. m \<notin> M \<Longrightarrow> getParent s' m = getParent s m"
    and moved: "\<And>m r k. m \<in> M \<Longrightarrow> m \<notin> X \<Longrightarrow> path s m r k \<Longrightarrow> \<exists>k'. path s' m r k'"
    and closed: "\<And>m p. m \<notin> X \<Longrightarrow> m \<notin> M \<Longrightarrow> getParent s m = Some p \<Longrightarrow> p \<notin> X"
    and dropped: "\<And>x. x \<in> X \<Longrightarrow> (\<exists>r k. path s' x r k) \<and>
           (x < fresh s \<longrightarrow> node_kind (nodes s x) \<noteq> ContentNode)"
    and tops: "\<And>n. n \<in> M \<Longrightarrow> n < fresh s \<Longrightarrow> getParent s n = None \<Longrightarrow>
           getParent s' n = None"
  shows "preserves s s'"
proof -
  have top: "getParent s' n = None" if "n < fresh s" "getParent s n = None" for n
    using that tops [of n] unchanged [of n] by (cases "n \<in> M") simp_all
  have keep: "\<exists>k'. path s' n r k'" if "path s n r k" "n \<notin> X" for n r k
    using that unchanged moved closed by (rule path_keep)
  have rooted: "\<exists>r k. path s' n r k" for n
  proof (cases "n \<in> X")
    case True
    then show ?thesis using dropped by blast
  next
    case False
    from wf_rooted [OF wf] obtain r k where "path s n r k" by blast
    from keep [OF this False] show ?thesis by blast
  qed
  have w: "wellFormed s'"
    by (rule wellFormedI) (fact I1 I2 I3 I0 I4 I6 rooted)+
  have "\<forall>r. leafContent s' r = leafContent s r"
  proof (intro allI set_eqI iffI)
    fix r c
    assume "c \<in> leafContent s r"
    then obtain k where c: "c < fresh s" "node_kind (nodes s c) = ContentNode"
      "getChildren s c = []" "path s c r k"
      by (auto simp: leafContent_def)
    from c(1,2) dropped have "c \<notin> X" by blast
    from keep [OF c(4) this] obtain k' where "path s' c r k'" by blast
    with c fr kinds [OF c(1)] content_children [OF c(1,2)]
    show "c \<in> leafContent s' r" by (auto simp: leafContent_def)
  next
    fix r c
    assume "c \<in> leafContent s' r"
    then obtain k where c: "c < fresh s'" "node_kind (nodes s' c) = ContentNode"
      "getChildren s' c = []" "path s' c r k"
      by (auto simp: leafContent_def)
    have old: "c < fresh s" using newkind [of c] c(1,2) by (cases "c < fresh s") auto
    then have k: "node_kind (nodes s c) = ContentNode" using kinds c(2) by simp
    with old dropped have "c \<notin> X" by blast
    from wf_rooted [OF wf] obtain r0 k0 where p0: "path s c r0 k0" by blast
    from keep [OF this \<open>c \<notin> X\<close>] obtain k' where "path s' c r0 k'" by blast
    with c(4) have "r0 = r" using path_det by blast
    with p0 old k content_children [OF old k] c(3)
    show "c \<in> leafContent s r" by (auto simp: leafContent_def)
  qed
  with w fr kinds top show ?thesis by (simp add: preserves_def)
qed

lemma path_cong:
  assumes "\<And>n. getParent s' n = getParent s n"
  shows "path s' n r k = path s n r k"
proof
  show "path s' n r k \<Longrightarrow> path s n r k"
    by (induction rule: path.induct) (auto simp: assms intro: path.intros)
  show "path s n r k \<Longrightarrow> path s' n r k"
    by (induction rule: path.induct) (auto simp: assms [symmetric] intro: path.intros)
qed

lemma wellFormed_cong:
  assumes "nodes s' = nodes s" and "fresh s' = fresh s"
  shows "wellFormed s' = wellFormed s"
proof -
  have "path s' = path s"
    by (intro ext path_cong) (simp add: getParent_def assms)
  then show ?thesis
    by (simp add: wellFormed_def getParent_def getChildren_def isListItemNode_def
        isListNode_def assms)
qed

lemma leafContent_cong:
  assumes "nodes s' = nodes s" and "fresh s' = fresh s"
  shows "leafContent s' r = leafContent s r"
proof -
  have "path s' = path s"
    by (intro ext path_cong) (simp add: getParent_def assms)
  then show ?thesis
    by (simp add: leafContent_def getChildren_def assms)
qed

lemma path_parent:
  "path s n r k \<Longrightarrow> getParent s n = Some p \<Longrightarrow> \<exists>j. k = Suc j \<and> path s p r j"
  by (simp add: path_up_iff)

lemma wf_neq_parent:
  assumes "wellFormed s" and "getParent s n = Some p"
  shows "n \<noteq> p"
proof
  assume "n = p"
  from wf_rooted [OF assms(1)] obtain r k where p: "path s n r k" by blast
  from path_parent [OF p assms(2)] obtain j where "k = Suc j" "path s p r j" by blast
  with p \<open>n = p\<close> path_det [of s n r k r j] show False by simp
qed

lemma wf_neq_grandparent:
  assumes "wellFormed s" and "getParent s n = Some p" and "getParent s p = Some g"
  shows "n \<noteq> g"
proof
  assume "n = g"
  from wf_rooted [OF assms(1)] obtain r k where p: "path s n r k" by blast
  from path_parent [OF p assms(2)] obtain j where j: "k = Suc j" "path s p r j" by blast
  from path_parent [OF j(2) assms(3)] obtain i where "j = Suc i" "path s g r i" by blast
  with p j \<open>n = g\<close> path_det [of s n r k r i] show False by simp
qed

lemma previous_sibling_in:
  assumes "getPreviousSibling s t = Some w"
  shows "\<exists>p. getParent s t = Some p \<and> w \<in> set (getChildren s p) \<and> w \<noteq> t"
proof -
  from assms obtain p where par: "getParent s t = Some p"
    by (cases "getParent s t") (simp_all add: getPreviousSibling_def getPreviousSiblings_def)
  from assms par obtain xs where "rev (takeWhile (\<lambda>c. c \<noteq> t) (getChildren s p)) = w # xs"
    by (cases "rev (takeWhile (\<lambda>c. c \<noteq> t) (getChildren s p))")
      (simp_all add: getPreviousSibling_def getPreviousSiblings_def)
  then have "w \<in> set (rev (takeWhile (\<lambda>c. c \<noteq> t) (getChildren s p)))" by simp
  then have "w \<in> set (takeWhile (\<lambda>c. c \<noteq> t) (getChildren s p))" by simp
  then have "w \<in> set (getChildren s p) \<and> w \<noteq> t" by (rule set_takeWhileD)
  with par show ?thesis by simp
qed

lemma next_sibling_in:
  assumes "getNextSibling s t = Some w"
  shows "\<exists>p. getParent s t = Some p \<and> w \<in> set (getChildren s p)"
proof -
  from assms obtain p where par: "getParent s t = Some p"
    by (cases "getParent s t") (simp_all add: getNextSibling_def getNextSiblings_def)
  from assms par obtain xs where "drop 1 (dropWhile (\<lambda>c. c \<noteq> t) (getChildren s p)) = w # xs"
    by (cases "drop 1 (dropWhile (\<lambda>c. c \<noteq> t) (getChildren s p))")
      (simp_all add: getNextSibling_def getNextSiblings_def)
  then have "w \<in> set (drop 1 (dropWhile (\<lambda>c. c \<noteq> t) (getChildren s p)))" by simp
  then have "w \<in> set (dropWhile (\<lambda>c. c \<noteq> t) (getChildren s p))" by (rule in_set_dropD)
  then have "w \<in> set (getChildren s p)" by (rule set_dropWhileD)
  with par show ?thesis by simp
qed

lemma nested_inner:
  "isNestedListNode s (Some w) \<Longrightarrow>
   \<exists>il. getFirstChild s w = Some il \<and> il \<in> set (getChildren s w) \<and>
        isListNode s (Some il) \<and> isListItemNode s (Some w)"
  by (cases "getChildren s w")
    (auto simp: isNestedListNode_def getFirstChild_def isListNode_def)

lemma indent_previous_preserved:
  assumes wf: "wellFormed s"
    and nn: "\<not> isNestedListNode s (Some t)" and li: "isListItemNode s (Some t)"
    and prv: "getPreviousSibling s t = Some w" and pnest: "isNestedListNode s (Some w)"
    and nnest: "\<not> isNestedListNode s (getNextSibling s t)"
  shows "\<exists>s'. indentListItem s t = Some s' \<and> preserves s s'"
proof -
  from previous_sibling_in [OF prv] obtain p where par: "getParent s t = Some p"
    and wp: "w \<in> set (getChildren s p)" and wt: "w \<noteq> t" by blast
  from nested_inner [OF pnest] obtain il where inner: "getFirstChild s w = Some il"
    and ilw: "il \<in> set (getChildren s w)" and ill: "isListNode s (Some il)"
    and wli: "isListItemNode s (Some w)" by blast
  note cp = wf_child_parent [OF wf] and pc = wf_parent_child [OF wf]
  have pw: "getParent s w = Some p" and pil: "getParent s il = Some w"
    using cp wp ilw by auto
  have neq: "il \<noteq> p" using wf_neq_grandparent [OF wf pil pw] .
  have til: "t \<noteq> il" "t \<noteq> p"
    using li ill wf_neq_parent [OF wf par]
    by (auto simp: isListItemNode_def isListNode_def split: kind.splits)
  have tnil: "t \<notin> set (getChildren s il)" using cp par neq by auto
  from indent_previous_frame [OF nn par prv pnest nnest inner neq]
  obtain s' where i: "indentListItem s t = Some s'"
    and F: "fresh s' = fresh s"
    and P: "\<And>m. getParent s' m = (if m = t then Some il else getParent s m)"
    and C: "\<And>m. getChildren s' m =
                  (if m = il then getChildren s il @ [t]
                   else if m = p then removeAll t (getChildren s p)
                   else getChildren s m)"
    and K: "\<And>m. node_kind (nodes s' m) = node_kind (nodes s m)"
    by blast
  have KI: "isListItemNode s' = isListItemNode s" "isListNode s' = isListNode s"
    by (auto simp: fun_eq_iff isListItemNode_def isListNode_def K split: option.splits)
  have alloc: "t < fresh s" "il < fresh s" "p < fresh s"
    using wellFormed_allocated(2) [OF wf par] wellFormed_allocated(2) [OF wf pil] by auto
  have pk: "node_kind (nodes s p) \<noteq> ContentNode"
    using wf_item_parent [OF wf li par] .
  have "preserves s s'"
  proof (rule step_preserved [OF wf, where M = "{t}" and X = "{}"])
    fix n q assume "getParent s' n = Some q"
    then show "n \<in> set (getChildren s' q)"
      using pc [of n q] by (auto simp: P C split: if_splits)
  next
    fix n c assume "c \<in> set (getChildren s' n)"
    then show "getParent s' c = Some n"
      using cp [of c n] par tnil by (auto simp: P C split: if_splits)
  next
    fix n show "distinct (getChildren s' n)"
      using wf_distinct [OF wf, of n] tnil by (auto simp: C distinct_removeAll)
  next
    fix n assume "fresh s' \<le> n"
    then show "getParent s' n = None \<and> getChildren s' n = []"
      using wf_blank [OF wf, of n] alloc by (auto simp: P C F)
  next
    fix n c
    assume a: "isListItemNode s' (Some n)" "c \<in> set (getChildren s' n)" "isListNode s' (Some c)"
    show "getChildren s' n = [c]"
    proof (cases "n = p")
      case True
      with a neq have "c \<in> set (getChildren s p)" by (auto simp: C split: if_splits)
      with a True have "getChildren s p = [c]" using wf_sole [OF wf, of p c] by (simp add: KI)
      with pc [OF par] have "t = c" by simp
      with a li show ?thesis
        by (auto simp: K isListItemNode_def isListNode_def split: kind.splits)
    next
      case False
      with a ill show ?thesis
        using wf_sole [OF wf, of n c]
        by (auto simp: K C isListItemNode_def isListNode_def split: if_splits kind.splits)
    qed
  next
    fix n q assume "isListItemNode s' (Some n)" "getParent s' n = Some q"
    then show "node_kind (nodes s' q) \<noteq> ContentNode"
      using wf_item_parent [OF wf, of n q] ill
      by (auto simp: K P isListNode_def isListItemNode_def split: if_splits kind.splits)
  next
    show "fresh s \<le> fresh s'" by (simp add: F)
  next
    fix n show "node_kind (nodes s' n) = node_kind (nodes s n)" by (rule K)
  next
    fix n assume "fresh s \<le> n" "n < fresh s'"
    then show "node_kind (nodes s' n) \<noteq> ContentNode" by (simp add: F)
  next
    fix c assume "c < fresh s" "node_kind (nodes s c) = ContentNode"
    then show "getChildren s' c = getChildren s c"
      using pk ill by (auto simp: C isListNode_def split: kind.splits)
  next
    fix m assume "m \<notin> {t}"
    then show "getParent s' m = getParent s m" by (simp add: P)
  next
    fix m r k assume "m \<in> {t}" "path s m r k"
    then have pt: "path s t r k" by simp
    from path_parent [OF pt par] obtain j where j: "k = Suc j" "path s p r j" by blast
    have "path s' p r j"
    proof (rule path_transfer [OF j(2)])
      fix m i assume "path s m r i" "i \<le> j"
      with pt j have "m \<noteq> t" using path_det [of s t r k r i] by auto
      then show "getParent s' m = getParent s m" by (simp add: P)
    qed
    then have "path s' w r (Suc j)" using pw wt by (auto intro: path.up simp: P)
    then have "path s' il r (Suc (Suc j))" using pil til by (auto intro: path.up simp: P)
    then have "path s' t r (Suc (Suc (Suc j)))" by (auto intro: path.up simp: P)
    then show "\<exists>k'. path s' m r k'" using \<open>m \<in> {t}\<close> by blast
  next
    fix n assume "n \<in> {t}" "n < fresh s" "getParent s n = None"
    then show "getParent s' n = None" using par by auto
  qed simp_all
  with i show ?thesis by blast
qed

subsection \<open>Each branch keeps the tree well-formed and its content in place\<close>

lemma same_nodes_preserved:
  assumes "wellFormed s" and "nodes s' = nodes s" and "fresh s' = fresh s"
  shows "preserves s s'"
  using assms wellFormed_cong [of s' s] leafContent_cong [of s' s]
  by (simp add: preserves_def getParent_def)

lemma indent_next_preserved:
  assumes wf: "wellFormed s"
    and nn: "\<not> isNestedListNode s (Some t)" and li: "isListItemNode s (Some t)"
    and nxt: "getNextSibling s t = Some w" and wnest: "isNestedListNode s (Some w)"
    and pnest: "\<not> isNestedListNode s (getPreviousSibling s t)"
  shows "\<exists>s'. indentListItem s t = Some s' \<and> preserves s s'"
proof -
  from next_sibling_in [OF nxt] obtain p where par: "getParent s t = Some p"
    and wp: "w \<in> set (getChildren s p)" by blast
  from nested_inner [OF wnest] obtain il where inner: "getFirstChild s w = Some il"
    and ilw: "il \<in> set (getChildren s w)" and ill: "isListNode s (Some il)"
    and wli: "isListItemNode s (Some w)" by blast
  note cp = wf_child_parent [OF wf] and pc = wf_parent_child [OF wf]
  have pw: "getParent s w = Some p" and pil: "getParent s il = Some w"
    using cp wp ilw by auto
  have neq: "il \<noteq> p" using wf_neq_grandparent [OF wf pil pw] .
  have tw: "t \<noteq> w" using nn wnest by auto
  have til: "t \<noteq> il" "t \<noteq> p" "t \<noteq> w"
    using li ill wf_neq_parent [OF wf par] tw
    by (auto simp: isListItemNode_def isListNode_def split: kind.splits)
  show ?thesis
  proof (cases "getFirstChild s il")
    case None
    have "indentMergeNext s t w = Some (markAllDirty s (getChildren s il))"
      using inner ill None by (simp add: indentMergeNext_def)
    then have "\<exists>s'. indentListItem s t = Some s' \<and> nodes s' = nodes s \<and> fresh s' = fresh s"
      unfolding indentListItem_def Let_def using nn nxt wnest pnest par
      by (auto simp: isListNode_def)
    then show ?thesis using same_nodes_preserved [OF wf] by blast
  next
    case (Some f)
    then have fil: "f \<in> set (getChildren s il)"
      by (auto simp: getFirstChild_def split: list.splits)
    then have fpar: "getParent s f = Some il" using cp by simp
    have tnil: "t \<notin> set (getChildren s il)" using cp par neq by auto
    from indent_next_frame [OF nn par nxt wnest pnest inner Some fpar neq]
    obtain s' where i: "indentListItem s t = Some s'"
      and F: "fresh s' = fresh s"
      and P: "\<And>m. getParent s' m = (if m = t then Some il else getParent s m)"
      and C: "\<And>m. getChildren s' m =
                  (if m = il then t # getChildren s il
                   else if m = p then removeAll t (getChildren s p)
                   else getChildren s m)"
      and K: "\<And>m. node_kind (nodes s' m) = node_kind (nodes s m)"
      by blast
    have alloc: "t < fresh s" "il < fresh s" "p < fresh s"
      using wellFormed_allocated(2) [OF wf par] wellFormed_allocated(2) [OF wf pil] by auto
    have pk: "node_kind (nodes s p) \<noteq> ContentNode"
      using wf_item_parent [OF wf li par] .
    have "preserves s s'"
    proof (rule step_preserved [OF wf, where M = "{t}" and X = "{}"])
      fix n q assume "getParent s' n = Some q"
      then show "n \<in> set (getChildren s' q)"
        using pc [of n q] by (auto simp: P C split: if_splits)
    next
      fix n c assume "c \<in> set (getChildren s' n)"
      then show "getParent s' c = Some n"
        using cp [of c n] par tnil by (auto simp: P C split: if_splits)
    next
      fix n show "distinct (getChildren s' n)"
        using wf_distinct [OF wf, of n] tnil by (auto simp: C distinct_removeAll)
    next
      fix n assume "fresh s' \<le> n"
      then show "getParent s' n = None \<and> getChildren s' n = []"
        using wf_blank [OF wf, of n] alloc by (auto simp: P C F)
    next
      fix n c
      assume a: "isListItemNode s' (Some n)" "c \<in> set (getChildren s' n)"
        "isListNode s' (Some c)"
      show "getChildren s' n = [c]"
      proof (cases "n = p")
        case True
        with a neq have "c \<in> set (getChildren s p)" by (auto simp: C split: if_splits)
        with a True have "getChildren s p = [c]"
          using wf_sole [OF wf, of p c] by (simp add: isListItemNode_def isListNode_def K)
        with pc [OF par] have "t = c" by simp
        with a li show ?thesis
          by (auto simp: K isListItemNode_def isListNode_def split: kind.splits)
      next
        case False
        with a ill show ?thesis
          using wf_sole [OF wf, of n c]
          by (auto simp: K C isListItemNode_def isListNode_def split: if_splits kind.splits)
      qed
    next
      fix n q assume "isListItemNode s' (Some n)" "getParent s' n = Some q"
      then show "node_kind (nodes s' q) \<noteq> ContentNode"
        using wf_item_parent [OF wf, of n q] ill
        by (auto simp: K P isListNode_def isListItemNode_def split: if_splits kind.splits)
    next
      show "fresh s \<le> fresh s'" by (simp add: F)
    next
      fix n show "node_kind (nodes s' n) = node_kind (nodes s n)" by (rule K)
    next
      fix n assume "fresh s \<le> n" "n < fresh s'"
      then show "node_kind (nodes s' n) \<noteq> ContentNode" by (simp add: F)
    next
      fix c assume "c < fresh s" "node_kind (nodes s c) = ContentNode"
      then show "getChildren s' c = getChildren s c"
        using pk ill by (auto simp: C isListNode_def split: kind.splits)
    next
      fix m assume "m \<notin> {t}"
      then show "getParent s' m = getParent s m" by (simp add: P)
    next
      fix m r k assume "m \<in> {t}" "path s m r k"
      then have pt: "path s t r k" by simp
      from path_parent [OF pt par] obtain j where j: "k = Suc j" "path s p r j" by blast
      have "path s' p r j"
      proof (rule path_transfer [OF j(2)])
        fix m i assume "path s m r i" "i \<le> j"
        with pt j have "m \<noteq> t" using path_det [of s t r k r i] by auto
        then show "getParent s' m = getParent s m" by (simp add: P)
      qed
      then have "path s' w r (Suc j)" using pw til by (auto intro: path.up simp: P)
      then have "path s' il r (Suc (Suc j))" using pil til by (auto intro: path.up simp: P)
      then have "path s' t r (Suc (Suc (Suc j)))" by (auto intro: path.up simp: P)
      then show "\<exists>k'. path s' m r k'" using \<open>m \<in> {t}\<close> by blast
    next
      fix n assume "n \<in> {t}" "n < fresh s" "getParent s n = None"
      then show "getParent s' n = None" using par by auto
    qed simp_all
    with i show ?thesis by blast
  qed
qed

lemma indent_create_preserved:
  assumes wf: "wellFormed s"
    and nn: "\<not> isNestedListNode s (Some t)" and li: "isListItemNode s (Some t)"
    and par: "getParent s t = Some p" and plist: "isListNode s (Some p)"
    and pnest: "\<not> isNestedListNode s (getPreviousSibling s t)"
    and nnest: "\<not> isNestedListNode s (getNextSibling s t)"
  shows "\<exists>s'. indentListItem s t = Some s' \<and> preserves s s'"
proof -
  note cp = wf_child_parent [OF wf] and pc = wf_parent_child [OF wf]
  from plist obtain tg where tag: "getTag s p = Some tg"
    by (auto simp: isListNode_def getTag_def split: kind.splits)
  then have pkind: "node_kind (nodes s p) = ListNode tg"
    by (auto simp: getTag_def split: kind.splits)
  from pc [OF par] obtain xs ys where pos: "getChildren s p = xs @ t # ys"
    by (auto dest: split_list)
  have dist: "distinct (getChildren s p)" by (rule wf_distinct [OF wf])
  have sibs: "\<forall>c\<in>set (getChildren s p). getParent s c = Some p \<and> c < fresh s"
    using cp wellFormed_allocated(1) [OF wf] by blast
  have alloc: "t < fresh s" "p < fresh s"
    using wellFormed_allocated(2) [OF wf par] by auto
  from pos dist have txs: "t \<notin> set xs" "t \<notin> set ys" "distinct xs" "distinct ys"
    "set xs \<inter> set ys = {}" by auto
  have xsold: "\<forall>c\<in>set xs. c < fresh s" "\<forall>c\<in>set ys. c < fresh s" using sibs pos by auto
  define W where "W = fresh s"
  define L where "L = fresh s + 1"
  have nwx: "W \<notin> set xs" "W \<notin> set ys" "L \<notin> set xs" "L \<notin> set ys"
    using xsold by (auto simp: W_def L_def)
  have nw: "W \<noteq> L" "W \<noteq> t" "L \<noteq> t" "W \<noteq> p" "L \<noteq> p" "t \<noteq> p"
    using alloc wf_neq_parent [OF wf par] by (auto simp: W_def L_def)
  have blank: "getParent s W = None" "getParent s L = None" "getChildren s W = []"
    "getChildren s L = []"
    using wf_blank [OF wf, of W] wf_blank [OF wf, of L] by (auto simp: W_def L_def)
  from indent_create_frame [OF nn li par tag pos dist sibs alloc(2) pnest nnest]
  obtain s' where i: "indentListItem s t = Some s'"
    and F: "fresh s' = fresh s + 2"
    and P: "\<And>m. getParent s' m =
                  (if m = t then Some L else if m = L then Some W
                   else if m = W then Some p else getParent s m)"
    and C: "\<And>m. getChildren s' m =
                  (if m = p then xs @ W # ys else if m = W then [L]
                   else if m = L then [t] else getChildren s m)"
    and K: "\<And>m. node_kind (nodes s' m) =
                  (if m = W then ListItemNode else if m = L then ListNode tg
                   else node_kind (nodes s m))"
    unfolding W_def L_def by blast
  have up_p: "path s' p r j" if "path s p r j" for r j
  proof (rule path_transfer [OF that])
    fix m i assume a: "path s m r i" "i \<le> j"
    have "r < fresh s" using path_root_allocated [OF wf that alloc(2)] .
    then have "m \<noteq> W" "m \<noteq> L"
      using a(1) blank by (auto simp: path_top_iff W_def L_def)
    moreover have "m \<noteq> t"
    proof
      assume "m = t"
      with a(1) par have "path s t r i" by simp
      moreover have "path s t r (Suc j)" using par that by (rule path.up)
      ultimately have "i = Suc j" using path_det by blast
      with a(2) show False by simp
    qed
    ultimately show "getParent s' m = getParent s m" by (simp add: P)
  qed
  have up_t: "\<exists>k'. path s' W r k' \<and> path s' L r (Suc k') \<and> path s' t r (Suc (Suc k'))"
    if "path s p r j" for r j
  proof -
    have "path s' W r (Suc j)" using up_p [OF that] nw by (auto intro: path.up simp: P)
    moreover from this have "path s' L r (Suc (Suc j))" using nw by (auto intro: path.up simp: P)
    moreover from this have "path s' t r (Suc (Suc (Suc j)))" by (auto intro: path.up simp: P)
    ultimately show ?thesis by blast
  qed
  have "preserves s s'"
  proof (rule step_preserved [OF wf, where M = "{t, W, L}" and X = "{W, L}"])
    fix n q assume "getParent s' n = Some q"
    then show "n \<in> set (getChildren s' q)"
      using pc [of n q] blank pos nw by (auto simp: P C split: if_splits)
  next
    fix n c assume "c \<in> set (getChildren s' n)"
    then show "getParent s' c = Some n"
      using cp [of c n] par blank pos nw nwx txs by (auto simp: P C split: if_splits)
  next
    fix n show "distinct (getChildren s' n)"
      using wf_distinct [OF wf, of n] txs nwx by (auto simp: C)
  next
    fix n assume "fresh s' \<le> n"
    then show "getParent s' n = None \<and> getChildren s' n = []"
      using wf_blank [OF wf, of n] alloc by (auto simp: P C F W_def L_def)
  next
    fix n c
    assume a: "isListItemNode s' (Some n)" "c \<in> set (getChildren s' n)" "isListNode s' (Some c)"
    show "getChildren s' n = [c]"
    proof (cases "n = W \<or> n = L \<or> n = p")
      case True
      with a nw pkind show ?thesis
        by (auto simp: C K isListItemNode_def isListNode_def split: if_splits)
    next
      case False
      with a have cn: "c \<in> set (getChildren s n)" by (simp add: C)
      then have "getParent s c = Some n" by (rule cp)
      then have "c \<noteq> W" "c \<noteq> L" using blank by auto
      with a False cn show ?thesis
        using wf_sole [OF wf, of n c]
        by (auto simp: K C isListItemNode_def isListNode_def)
    qed
  next
    fix n q assume a: "isListItemNode s' (Some n)" "getParent s' n = Some q"
    show "node_kind (nodes s' q) \<noteq> ContentNode"
    proof (cases "n = t \<or> n = W \<or> n = L")
      case True
      with a nw pkind show ?thesis by (auto simp: P K split: if_splits)
    next
      case False
      with a have "getParent s n = Some q" by (simp add: P)
      moreover from this have "q < fresh s" using wellFormed_allocated(2) [OF wf] by blast
      ultimately show ?thesis
        using a False wf_item_parent [OF wf, of n q]
        by (auto simp: K isListItemNode_def W_def L_def)
    qed
  next
    show "fresh s \<le> fresh s'" by (simp add: F)
  next
    fix n assume "n < fresh s"
    then show "node_kind (nodes s' n) = node_kind (nodes s n)" by (simp add: K W_def L_def)
  next
    fix n assume "fresh s \<le> n" "n < fresh s'"
    then have "n = W \<or> n = L" by (auto simp: F W_def L_def)
    then show "node_kind (nodes s' n) \<noteq> ContentNode" using nw by (auto simp: K)
  next
    fix c assume "c < fresh s" "node_kind (nodes s c) = ContentNode"
    then show "getChildren s' c = getChildren s c"
      using pkind by (auto simp: C W_def L_def)
  next
    fix m assume "m \<notin> {t, W, L}"
    then show "getParent s' m = getParent s m" by (simp add: P)
  next
    fix m r k assume "m \<in> {t, W, L}" "m \<notin> {W, L}" "path s m r k"
    then have m: "m = t" and pt: "path s t r k" by auto
    from path_parent [OF pt par] obtain j where j: "k = Suc j" "path s p r j" by blast
    from up_t [OF j(2)] m show "\<exists>k'. path s' m r k'" by blast
  next
    fix m q assume "m \<notin> {W, L}" "m \<notin> {t, W, L}" "getParent s m = Some q"
    then have "q < fresh s" using wellFormed_allocated(2) [OF wf] by blast
    then show "q \<notin> {W, L}" by (auto simp: W_def L_def)
  next
    fix x assume x: "x \<in> {W, L}"
    from wf_rooted [OF wf] obtain r j where "path s p r j" by blast
    from up_t [OF this] x have "\<exists>r k. path s' x r k" by blast
    moreover have "\<not> x < fresh s" using x by (auto simp: W_def L_def)
    ultimately show "(\<exists>r k. path s' x r k) \<and>
        (x < fresh s \<longrightarrow> node_kind (nodes s x) \<noteq> ContentNode)" by simp
  next
    fix n assume "n \<in> {t, W, L}" "n < fresh s" "getParent s n = None"
    then show "getParent s' n = None" using par by (auto simp: W_def L_def)
  qed
  with i show ?thesis by blast
qed

lemma path_deeper_neq: "path s m r i \<Longrightarrow> path s t r k \<Longrightarrow> i < k \<Longrightarrow> m \<noteq> t"
  using path_det by blast

lemma wf_indented:
  assumes wf: "wellFormed s"
    and par: "getParent s t = Some pl" "getParent s pl = Some gp" "getParent s gp = Some ggp"
    and kinds: "isListNode s (Some pl)" "isListItemNode s (Some gp)" "isListNode s (Some ggp)"
  shows "indented s t pl gp ggp"
  unfolding indented_def
  using par kinds wf_neq_grandparent [OF wf par(1,2)] wf_neq_grandparent [OF wf par(2,3)]
    wf_parent_child [OF wf par(1)] wf_parent_child [OF wf par(3)] wf_distinct [OF wf]
  by simp

lemma outdent_first_preserved:
  assumes wf: "wellFormed s"
    and nn: "\<not> isNestedListNode s (Some t)" and li: "isListItemNode s (Some t)"
    and par: "getParent s t = Some pl" "getParent s pl = Some gp" "getParent s gp = Some ggp"
    and kinds: "isListNode s (Some pl)" "isListItemNode s (Some gp)" "isListNode s (Some ggp)"
    and first: "getFirstChild s pl = Some t"
  shows "\<exists>s'. outdentListItem s t = Some s' \<and> preserves s s'"
proof -
  note cp = wf_child_parent [OF wf] and pc = wf_parent_child [OF wf]
  have ind: "indented s t pl gp ggp" by (rule wf_indented [OF wf par kinds])
  note neq = indented_neq [OF ind]
  from pc [OF par(3)] obtain xs ys where pos: "getChildren s ggp = xs @ gp # ys"
    by (auto dest: split_list)
  have dggp: "distinct (xs @ gp # ys)" using wf_distinct [OF wf, of ggp] pos by simp
  then have d: "gp \<notin> set xs" "gp \<notin> set ys" "distinct xs" "distinct ys"
    "set xs \<inter> set ys = {}" by auto
  have txy: "t \<notin> set xs" "t \<notin> set ys"
    using cp [of t ggp] pos par neq by auto
  have tpl: "t \<noteq> pl" "t \<noteq> ggp" "t \<noteq> gp"
    using li kinds neq by (auto simp: isListItemNode_def isListNode_def split: kind.splits)
  from first obtain rest where cs: "getChildren s pl = t # rest"
    by (auto simp: getFirstChild_def split: list.splits)
  have gpc: "getChildren s gp = [pl]"
    using wf_sole [OF wf kinds(2) pc [OF par(2)] kinds(1)] .
  have alloc: "t < fresh s" "pl < fresh s" "gp < fresh s" "ggp < fresh s"
    using wellFormed_allocated(2) [OF wf par(1)] wellFormed_allocated(2) [OF wf par(3)] by auto
  have lk: "node_kind (nodes s pl) \<noteq> ContentNode" "node_kind (nodes s ggp) \<noteq> ContentNode"
    "node_kind (nodes s gp) \<noteq> ContentNode" "node_kind (nodes s pl) \<noteq> ListItemNode"
    "node_kind (nodes s ggp) \<noteq> ListItemNode"
    using kinds by (auto simp: isListItemNode_def isListNode_def split: kind.splits)
  from outdent_first_frame [OF ind nn first pos]
  obtain s' where o: "outdentListItem s t = Some s'"
    and F: "fresh s' = fresh s"
    and P: "\<And>m. getParent s' m =
                  (if m = t then Some ggp
                   else if m = gp \<and> rest = [] then None
                   else getParent s m)"
    and C: "\<And>m. getChildren s' m =
                  (if m = pl then rest
                   else if m = ggp then (if rest = [] then xs @ t # ys else xs @ t # gp # ys)
                   else getChildren s m)"
    and K: "\<And>m. node_kind (nodes s' m) = node_kind (nodes s m)"
    unfolding cs by auto
  define X where "X = (if rest = [] then {gp, pl} else {})"
  have up_ggp: "path s' ggp r j" if "path s ggp r j" for r j
  proof (rule path_transfer [OF that])
    fix m i assume a: "path s m r i" "i \<le> j"
    have pgp: "path s gp r (Suc j)" using par(3) that by (rule path.up)
    then have "path s pl r (Suc (Suc j))" using par(2) by (auto intro: path.up)
    then have pt: "path s t r (Suc (Suc (Suc j)))" using par(1) by (auto intro: path.up)
    have "m \<noteq> t" using path_deeper_neq [OF a(1) pt] a(2) by simp
    moreover have "m \<noteq> gp" using path_deeper_neq [OF a(1) pgp] a(2) by simp
    ultimately show "getParent s' m = getParent s m" by (simp add: P)
  qed
  have "preserves s s'"
  proof (rule step_preserved [OF wf, where M = "{t, gp}" and X = X])
    fix n q assume "getParent s' n = Some q"
    then show "n \<in> set (getChildren s' q)"
      using pc [of n q] pos cs neq tpl by (auto simp: P C split: if_splits)
  next
    fix n c assume "c \<in> set (getChildren s' n)"
    then show "getParent s' c = Some n"
      using cp [of c n] par pos cs neq tpl d txy wf_distinct [OF wf, of pl]
      by (auto simp: P C split: if_splits)
  next
    fix n show "distinct (getChildren s' n)"
      using wf_distinct [OF wf, of n] d txy cs tpl by (auto simp: C)
  next
    fix n assume "fresh s' \<le> n"
    then show "getParent s' n = None \<and> getChildren s' n = []"
      using wf_blank [OF wf, of n] alloc by (auto simp: P C F)
  next
    fix n c
    assume a: "isListItemNode s' (Some n)" "c \<in> set (getChildren s' n)" "isListNode s' (Some c)"
    then have "n \<noteq> pl" "n \<noteq> ggp" using lk by (auto simp: isListItemNode_def K)
    with a show "getChildren s' n = [c]"
      using wf_sole [OF wf, of n c] by (auto simp: K C isListItemNode_def isListNode_def)
  next
    fix n q assume "isListItemNode s' (Some n)" "getParent s' n = Some q"
    then show "node_kind (nodes s' q) \<noteq> ContentNode"
      using wf_item_parent [OF wf, of n q] lk
      by (auto simp: K P isListItemNode_def split: if_splits)
  next
    show "fresh s \<le> fresh s'" by (simp add: F)
  next
    fix n show "node_kind (nodes s' n) = node_kind (nodes s n)" by (rule K)
  next
    fix n assume "fresh s \<le> n" "n < fresh s'"
    then show "node_kind (nodes s' n) \<noteq> ContentNode" by (simp add: F)
  next
    fix c assume "c < fresh s" "node_kind (nodes s c) = ContentNode"
    then show "getChildren s' c = getChildren s c" using lk by (auto simp: C)
  next
    fix m assume "m \<notin> {t, gp}"
    then show "getParent s' m = getParent s m" by (simp add: P)
  next
    fix m r k assume m: "m \<in> {t, gp}" "m \<notin> X" "path s m r k"
    show "\<exists>k'. path s' m r k'"
    proof (cases "m = t")
      case True
      with m have "path s t r k" by simp
      from path_parent [OF this par(1)] obtain j1 where j1: "path s pl r j1" by blast
      from path_parent [OF this par(2)] obtain j2 where j2: "path s gp r j2" by blast
      from path_parent [OF this par(3)] obtain j where "path s ggp r j" by blast
      from up_ggp [OF this] have "path s' t r (Suc j)" by (auto intro: path.up simp: P)
      with True show ?thesis by blast
    next
      case False
      with m have mgp: "m = gp" and ne: "rest \<noteq> []" by (auto simp: X_def split: if_splits)
      from m mgp have "path s gp r k" by simp
      from path_parent [OF this par(3)] obtain j where "path s ggp r j" by blast
      from up_ggp [OF this] have "path s' gp r (Suc j)"
        using ne tpl by (auto intro: path.up simp: P par)
      with mgp show ?thesis by blast
    qed
  next
    fix m q assume "m \<notin> X" "m \<notin> {t, gp}" "getParent s m = Some q"
    then show "q \<notin> X"
      using pc [of m q] gpc cs by (auto simp: X_def split: if_splits)
  next
    fix x assume x: "x \<in> X"
    then have e: "rest = []" "x = gp \<or> x = pl" by (auto simp: X_def split: if_splits)
    have "path s' gp gp 0" using e tpl by (auto intro: path.top simp: P)
    moreover from this have "path s' pl gp (Suc 0)"
      using tpl neq par by (auto intro: path.up simp: P)
    ultimately have "\<exists>r k. path s' x r k" using e by blast
    then show "(\<exists>r k. path s' x r k) \<and> (x < fresh s \<longrightarrow> node_kind (nodes s x) \<noteq> ContentNode)"
      using e lk by auto
  next
    fix n assume "n \<in> {t, gp}" "n < fresh s" "getParent s n = None"
    then show "getParent s' n = None" using par by auto
  qed
  with o show ?thesis by blast
qed

lemma outdent_last_preserved:
  assumes wf: "wellFormed s"
    and nn: "\<not> isNestedListNode s (Some t)" and li: "isListItemNode s (Some t)"
    and par: "getParent s t = Some pl" "getParent s pl = Some gp" "getParent s gp = Some ggp"
    and kinds: "isListNode s (Some pl)" "isListItemNode s (Some gp)" "isListNode s (Some ggp)"
    and notfirst: "Some t \<noteq> getFirstChild s pl"
    and last: "Some t = getLastChild s pl"
  shows "\<exists>s'. outdentListItem s t = Some s' \<and> preserves s s'"
proof -
  note cp = wf_child_parent [OF wf] and pc = wf_parent_child [OF wf]
  have ind: "indented s t pl gp ggp" by (rule wf_indented [OF wf par kinds])
  note neq = indented_neq [OF ind]
  from pc [OF par(3)] obtain xs ys where pos: "getChildren s ggp = xs @ gp # ys"
    by (auto dest: split_list)
  have dggp: "distinct (xs @ gp # ys)" using wf_distinct [OF wf, of ggp] pos by simp
  then have d: "gp \<notin> set xs" "gp \<notin> set ys" "distinct xs" "distinct ys"
    "set xs \<inter> set ys = {}" by auto
  have txy: "t \<notin> set xs" "t \<notin> set ys"
    using cp [of t ggp] pos par neq by auto
  have tpl: "t \<noteq> pl" "t \<noteq> ggp" "t \<noteq> gp"
    using li kinds neq by (auto simp: isListItemNode_def isListNode_def split: kind.splits)
  from last obtain ps where kids: "getChildren s pl = ps @ [t]"
    by (cases "getChildren s pl" rule: rev_cases) (auto simp: getLastChild_def)
  with notfirst have psne: "ps \<noteq> []" by (auto simp: getFirstChild_def)
  have dps: "distinct ps" "t \<notin> set ps" using wf_distinct [OF wf, of pl] kids by auto
  have alloc: "t < fresh s" "pl < fresh s" "gp < fresh s" "ggp < fresh s"
    using wellFormed_allocated(2) [OF wf par(1)] wellFormed_allocated(2) [OF wf par(3)] by auto
  have lk: "node_kind (nodes s pl) \<noteq> ContentNode" "node_kind (nodes s ggp) \<noteq> ContentNode"
    "node_kind (nodes s gp) \<noteq> ContentNode" "node_kind (nodes s pl) \<noteq> ListItemNode"
    "node_kind (nodes s ggp) \<noteq> ListItemNode"
    using kinds by (auto simp: isListItemNode_def isListNode_def split: kind.splits)
  from outdent_last_frame [OF ind nn kids psne pos]
  obtain s' where o: "outdentListItem s t = Some s'"
    and F: "fresh s' = fresh s"
    and P: "\<And>m. getParent s' m = (if m = t then Some ggp else getParent s m)"
    and C: "\<And>m. getChildren s' m =
                  (if m = pl then ps
                   else if m = ggp then xs @ gp # t # ys
                   else getChildren s m)"
    and K: "\<And>m. node_kind (nodes s' m) = node_kind (nodes s m)"
    by blast
  have up_ggp: "path s' ggp r j" if "path s ggp r j" for r j
  proof (rule path_transfer [OF that])
    fix m i assume a: "path s m r i" "i \<le> j"
    have pgp: "path s gp r (Suc j)" using par(3) that by (rule path.up)
    then have "path s pl r (Suc (Suc j))" using par(2) by (auto intro: path.up)
    then have pt: "path s t r (Suc (Suc (Suc j)))" using par(1) by (auto intro: path.up)
    have "m \<noteq> t" using path_deeper_neq [OF a(1) pt] a(2) by simp
    then show "getParent s' m = getParent s m" by (simp add: P)
  qed
  have "preserves s s'"
  proof (rule step_preserved [OF wf, where M = "{t}" and X = "{}"])
    fix n q assume "getParent s' n = Some q"
    then show "n \<in> set (getChildren s' q)"
      using pc [of n q] pos kids neq tpl by (auto simp: P C split: if_splits)
  next
    fix n c assume "c \<in> set (getChildren s' n)"
    then show "getParent s' c = Some n"
      using cp [of c n] par pos kids neq tpl d txy dps
      by (auto simp: P C split: if_splits)
  next
    fix n show "distinct (getChildren s' n)"
      using wf_distinct [OF wf, of n] d txy dps tpl by (auto simp: C)
  next
    fix n assume "fresh s' \<le> n"
    then show "getParent s' n = None \<and> getChildren s' n = []"
      using wf_blank [OF wf, of n] alloc by (auto simp: P C F)
  next
    fix n c
    assume a: "isListItemNode s' (Some n)" "c \<in> set (getChildren s' n)" "isListNode s' (Some c)"
    then have "n \<noteq> pl" "n \<noteq> ggp" using lk by (auto simp: isListItemNode_def K)
    with a show "getChildren s' n = [c]"
      using wf_sole [OF wf, of n c] by (auto simp: K C isListItemNode_def isListNode_def)
  next
    fix n q assume "isListItemNode s' (Some n)" "getParent s' n = Some q"
    then show "node_kind (nodes s' q) \<noteq> ContentNode"
      using wf_item_parent [OF wf, of n q] lk
      by (auto simp: K P isListItemNode_def split: if_splits)
  next
    show "fresh s \<le> fresh s'" by (simp add: F)
  next
    fix n show "node_kind (nodes s' n) = node_kind (nodes s n)" by (rule K)
  next
    fix n assume "fresh s \<le> n" "n < fresh s'"
    then show "node_kind (nodes s' n) \<noteq> ContentNode" by (simp add: F)
  next
    fix c assume "c < fresh s" "node_kind (nodes s c) = ContentNode"
    then show "getChildren s' c = getChildren s c" using lk by (auto simp: C)
  next
    fix m assume "m \<notin> {t}"
    then show "getParent s' m = getParent s m" by (simp add: P)
  next
    fix m r k assume m: "m \<in> {t}" "path s m r k"
    then have "path s t r k" by simp
    from path_parent [OF this par(1)] obtain j1 where j1: "path s pl r j1" by blast
    from path_parent [OF this par(2)] obtain j2 where j2: "path s gp r j2" by blast
    from path_parent [OF this par(3)] obtain j where "path s ggp r j" by blast
    from up_ggp [OF this] have "path s' t r (Suc j)" by (auto intro: path.up simp: P)
    with m show "\<exists>k'. path s' m r k'" by blast
  next
    fix n assume "n \<in> {t}" "n < fresh s" "getParent s n = None"
    then show "getParent s' n = None" using par(1) by auto
  qed simp_all
  with o show ?thesis by blast
qed

lemma wf_neq_great_grandparent:
  assumes "wellFormed s" and "getParent s n = Some p" and "getParent s p = Some g"
    and "getParent s g = Some h"
  shows "n \<noteq> h"
proof
  assume "n = h"
  from wf_rooted [OF assms(1)] obtain r k where p: "path s n r k" by blast
  from path_parent [OF p assms(2)] obtain j where j: "k = Suc j" "path s p r j" by blast
  from path_parent [OF j(2) assms(3)] obtain i where i: "j = Suc i" "path s g r i" by blast
  from path_parent [OF i(2) assms(4)] obtain l where "i = Suc l" "path s h r l" by blast
  with p j i \<open>n = h\<close> path_det [of s n r k r l] show False by simp
qed

lemma outdent_split_preserved:
  assumes wf: "wellFormed s"
    and nn: "\<not> isNestedListNode s (Some t)" and li: "isListItemNode s (Some t)"
    and par: "getParent s t = Some pl" "getParent s pl = Some gp" "getParent s gp = Some ggp"
    and kinds: "isListNode s (Some pl)" "isListItemNode s (Some gp)" "isListNode s (Some ggp)"
    and notfirst: "Some t \<noteq> getFirstChild s pl"
    and notlast: "Some t \<noteq> getLastChild s pl"
  shows "\<exists>s'. outdentListItem s t = Some s' \<and> preserves s s'"
proof -
  note cp = wf_child_parent [OF wf] and pc = wf_parent_child [OF wf]
  have ind: "indented s t pl gp ggp" by (rule wf_indented [OF wf par kinds])
  note neq = indented_neq [OF ind]
  from kinds(1) obtain tg where tag: "getTag s pl = Some tg"
    by (auto simp: isListNode_def getTag_def split: kind.splits)
  from pc [OF par(3)] obtain xs ys where pos: "getChildren s ggp = xs @ gp # ys"
    by (auto dest: split_list)
  from pc [OF par(1)] obtain ps ns where kids: "getChildren s pl = ps @ t # ns"
    by (auto dest: split_list)
  have interior: "ps \<noteq> []" "ns \<noteq> []"
    using notfirst notlast kids by (auto simp: getFirstChild_def getLastChild_def)
  have dggp: "distinct (xs @ gp # ys)" using wf_distinct [OF wf, of ggp] pos by simp
  then have d: "gp \<notin> set xs" "gp \<notin> set ys" "distinct xs" "distinct ys"
    "set xs \<inter> set ys = {}" by auto
  have dpl: "distinct (ps @ t # ns)" using wf_distinct [OF wf, of pl] kids by simp
  then have dp: "t \<notin> set ps" "t \<notin> set ns" "distinct ps" "distinct ns"
    "set ps \<inter> set ns = {}" by auto
  have sib: "\<forall>c\<in>set (getChildren s pl). getParent s c = Some pl \<and> c < fresh s"
    using cp wellFormed_allocated(1) [OF wf] by blast
  have oldc: "\<forall>c\<in>set (getChildren s ggp). c < fresh s"
    using wellFormed_allocated(1) [OF wf] by blast
  have alloc: "t < fresh s" "pl < fresh s" "gp < fresh s" "ggp < fresh s"
    using wellFormed_allocated(2) [OF wf par(1)] wellFormed_allocated(2) [OF wf par(3)] by auto
  have gpc: "getChildren s gp = [pl]"
    using wf_sole [OF wf kinds(2) pc [OF par(2)] kinds(1)] .
  have lk: "node_kind (nodes s pl) \<noteq> ContentNode" "node_kind (nodes s ggp) \<noteq> ContentNode"
    "node_kind (nodes s gp) \<noteq> ContentNode" "node_kind (nodes s pl) \<noteq> ListItemNode"
    "node_kind (nodes s ggp) \<noteq> ListItemNode"
    using kinds by (auto simp: isListItemNode_def isListNode_def split: kind.splits)
  define w1 where "w1 = fresh s"
  define l1 where "l1 = fresh s + 1"
  define w2 where "w2 = fresh s + 2"
  define l2 where "l2 = fresh s + 3"
  note new_defs = w1_def l1_def w2_def l2_def
  define New where "New = {w1, l1, w2, l2}"
  have new_ge: "fresh s \<le> x" if "x \<in> New" for x
    using that by (auto simp: New_def new_defs)
  have blank: "getParent s x = None" "getChildren s x = []" if "x \<in> New" for x
    using wf_blank [OF wf new_ge [OF that]] by auto
  have old_notnew: "x \<notin> New" if "x < fresh s" for x
    using that new_ge [of x] by auto
  have sibpar: "getParent s c = Some pl" "c < fresh s" if "c \<in> set ps \<union> set ns" for c
    using sib kids that by auto
  have xyold: "getParent s c = Some ggp" "c < fresh s" if "c \<in> set xs \<union> set ys" for c
    using cp [of c ggp] oldc pos that by auto
  have tpl: "t \<noteq> pl" "t \<noteq> ggp" "t \<noteq> gp"
    using li kinds neq by (auto simp: isListItemNode_def isListNode_def split: kind.splits)
  have nsib: "gp \<notin> set ps \<union> set ns" "pl \<notin> set ps \<union> set ns" "ggp \<notin> set ps \<union> set ns"
    using sibpar(1) par neq wf_neq_parent [OF wf, of pl pl]
      wf_neq_great_grandparent [OF wf _ par(2,3), of ggp]
    by auto
  have nxy0: "c \<notin> set xs \<union> set ys" if "getParent s c = Some pl" for c
    using xyold(1) [of c] that neq by auto
  have nxy: "t \<notin> set xs \<union> set ys" "pl \<notin> set xs \<union> set ys"
    using nxy0 [OF par(1)] xyold(1) [of pl] par neq by auto
  have nxy2: "c \<notin> set xs \<union> set ys" if "c \<in> set ps \<union> set ns" for c
    using nxy0 [OF sibpar(1) [OF that]] .
  from outdent_interior_frame [OF ind nn kids interior pos sib alloc(2,3,4) oldc tag]
  obtain s' where o: "outdentListItem s t = Some s'"
    and F: "fresh s' = fresh s + 4"
    and P: "\<And>m. getParent s' m =
                  (if m = t then Some ggp
                   else if m = gp then None
                   else if m = w1 \<or> m = w2 then Some ggp
                   else if m = l1 then Some w1
                   else if m = l2 then Some w2
                   else if m \<in> set ps then Some l1
                   else if m \<in> set ns then Some l2
                   else getParent s m)"
    and C: "\<And>m. getChildren s' m =
                  (if m = ggp then xs @ [w1, t, w2] @ ys
                   else if m = pl then []
                   else if m = w1 then [l1]
                   else if m = l1 then ps
                   else if m = w2 then [l2]
                   else if m = l2 then ns
                   else getChildren s m)"
    and K: "\<And>m. node_kind (nodes s' m) =
                  (if m = w1 \<or> m = w2 then ListItemNode
                   else if m = l1 \<or> m = l2 then ListNode tg
                   else node_kind (nodes s m))"
    unfolding new_defs by blast
  define M where "M = {t, gp} \<union> New \<union> set ps \<union> set ns"
  define X where "X = {gp, pl} \<union> New"
  have nw: "w1 \<noteq> l1" "w1 \<noteq> w2" "w1 \<noteq> l2" "l1 \<noteq> w2" "l1 \<noteq> l2" "w2 \<noteq> l2"
    by (simp_all add: new_defs)
  have oldnew: "t \<notin> New" "pl \<notin> New" "gp \<notin> New" "ggp \<notin> New"
    using alloc old_notnew by auto
  have sibnew: "c \<notin> New" if "c \<in> set ps \<union> set ns \<union> set xs \<union> set ys" for c
    using that sibpar(2) [of c] xyold(2) [of c] old_notnew [of c] by auto
  have unch: "getParent s' m = getParent s m" if "m \<notin> M" for m
    using that by (auto simp: P M_def New_def)
  have Ps: "getParent s' w1 = Some ggp" "getParent s' w2 = Some ggp"
    "getParent s' t = Some ggp" "getParent s' l1 = Some w1" "getParent s' l2 = Some w2"
    using oldnew nw by (auto simp: P New_def)
  have Cs: "getChildren s' ggp = xs @ [w1, t, w2] @ ys" "getChildren s' pl = []"
    "getChildren s' w1 = [l1]" "getChildren s' l1 = ps" "getChildren s' w2 = [l2]"
    "getChildren s' l2 = ns"
    using oldnew nw neq by (auto simp: C New_def)
  have up_ggp: "path s' ggp r j" if "path s ggp r j" for r j
  proof (rule path_transfer [OF that])
    fix m i assume a: "path s m r i" "i \<le> j"
    have pgp: "path s gp r (Suc j)" using par(3) that by (rule path.up)
    then have ppl: "path s pl r (Suc (Suc j))" using par(2) by (auto intro: path.up)
    have psib: "path s c r (Suc (Suc (Suc j)))" if "getParent s c = Some pl" for c
      using that ppl by (auto intro: path.up)
    have "m \<noteq> t" using path_deeper_neq [OF a(1) psib [OF par(1)]] a(2) by simp
    moreover have "m \<noteq> gp" using path_deeper_neq [OF a(1) pgp] a(2) by simp
    moreover have "m \<notin> set ps \<union> set ns"
    proof
      assume "m \<in> set ps \<union> set ns"
      from path_deeper_neq [OF a(1) psib [OF sibpar(1) [OF this]]] a(2) show False by simp
    qed
    moreover have "m \<notin> New"
    proof
      assume n: "m \<in> New"
      with a(1) blank(1) have "r = m" by (simp add: path_top_iff)
      moreover have "r < fresh s" using path_root_allocated [OF wf that alloc(4)] .
      ultimately show False using new_ge [OF n] by simp
    qed
    ultimately show "getParent s' m = getParent s m" by (intro unch) (simp add: M_def)
  qed
  have up_new: "path s' w1 r (Suc j) \<and> path s' l1 r (Suc (Suc j)) \<and>
                path s' w2 r (Suc j) \<and> path s' l2 r (Suc (Suc j)) \<and>
                path s' t r (Suc j)"
    if "path s ggp r j" for r j
  proof -
    have g: "path s' ggp r j" by (rule up_ggp [OF that])
    have pw1: "getParent s' w1 = Some ggp" "getParent s' w2 = Some ggp"
      "getParent s' t = Some ggp"
      using oldnew nw by (auto simp: P New_def)
    have pl1: "getParent s' l1 = Some w1" "getParent s' l2 = Some w2"
      using oldnew nw by (auto simp: P New_def)
    from g pw1 have w: "path s' w1 r (Suc j)" "path s' w2 r (Suc j)" "path s' t r (Suc j)"
      by (auto intro: path.up)
    with pl1 have "path s' l1 r (Suc (Suc j))" "path s' l2 r (Suc (Suc j))"
      by (auto intro: path.up)
    with w show ?thesis by simp
  qed
  have psib': "getParent s' c = Some l1" if "c \<in> set ps" for c
    using that dp nsib sibnew [of c] by (auto simp: P New_def)
  have nsib': "getParent s' c = Some l2" if "c \<in> set ns" for c
    using that dp nsib sibnew [of c] by (auto simp: P New_def)
  have "preserves s s'"
  proof (rule step_preserved [OF wf, where M = M and X = X])
    fix m assume "m \<notin> M"
    then show "getParent s' m = getParent s m" by (rule unch)
  next
    fix m r k assume m: "m \<in> M" "m \<notin> X" "path s m r k"
    then have mc: "m = t \<or> m \<in> set ps \<union> set ns" by (auto simp: M_def X_def)
    then have "getParent s m = Some pl" using par sibpar(1) by auto
    from path_parent [OF m(3) this] obtain j1 where j1: "path s pl r j1" by blast
    from path_parent [OF this par(2)] obtain j2 where j2: "path s gp r j2" by blast
    from path_parent [OF this par(3)] obtain j where j: "path s ggp r j" by blast
    note n = up_new [OF j]
    from mc show "\<exists>k'. path s' m r k'"
    proof (elim disjE)
      assume "m = t"
      with n show ?thesis by blast
    next
      assume "m \<in> set ps \<union> set ns"
      then have "getParent s' m = Some l1 \<or> getParent s' m = Some l2"
        using psib' nsib' by auto
      with n show ?thesis by (auto intro: path.up)
    qed
  next
    fix m q assume a: "m \<notin> X" "m \<notin> M" "getParent s m = Some q"
    from pc [OF a(3)] have "m \<in> set (getChildren s q)" .
    then show "q \<notin> X"
      using a(1,2) gpc kids blank(2) [of q] by (auto simp: X_def M_def)
  next
    fix x assume x: "x \<in> X"
    from wf_rooted [OF wf] obtain r j where "path s ggp r j" by blast
    note n = up_new [OF this]
    have "path s' gp gp 0" using tpl by (auto intro: path.top simp: P)
    moreover have "getParent s' pl = Some gp"
      using tpl neq oldnew nsib par by (auto simp: P New_def)
    ultimately have "path s' gp gp 0" "path s' pl gp (Suc 0)" by (auto intro: path.up)
    with n x have "\<exists>r k. path s' x r k" by (auto simp: X_def New_def)
    moreover have "x < fresh s \<longrightarrow> node_kind (nodes s x) \<noteq> ContentNode"
      using x lk new_ge [of x] by (auto simp: X_def)
    ultimately show "(\<exists>r k. path s' x r k) \<and>
        (x < fresh s \<longrightarrow> node_kind (nodes s x) \<noteq> ContentNode)" by simp
  next
    show "fresh s \<le> fresh s'" by (simp add: F)
  next
    fix n assume "n < fresh s"
    then show "node_kind (nodes s' n) = node_kind (nodes s n)" by (simp add: K new_defs)
  next
    fix n assume "fresh s \<le> n" "n < fresh s'"
    then have "n \<in> New" by (auto simp: F New_def new_defs)
    then show "node_kind (nodes s' n) \<noteq> ContentNode" by (auto simp: K New_def)
  next
    fix c assume "c < fresh s" "node_kind (nodes s c) = ContentNode"
    then show "getChildren s' c = getChildren s c"
      using lk old_notnew [of c] by (auto simp: C New_def)
  next
    fix n assume "fresh s' \<le> n"
    then have "fresh s + 4 \<le> n" by (simp add: F)
    then show "getParent s' n = None \<and> getChildren s' n = []"
      using wf_blank [OF wf, of n] alloc sibpar(2) [of n]
      by (auto simp: P C new_defs)
  next
    fix n
    note tx = nxy(1)
    have "distinct (xs @ [w1, t, w2] @ ys)"
      using d sibnew [of w1] sibnew [of w2] nw tx oldnew by (auto simp: New_def)
    then show "distinct (getChildren s' n)"
      using wf_distinct [OF wf, of n] dp by (simp add: C)
  next
    fix n q assume a: "getParent s' n = Some q"
    show "n \<in> set (getChildren s' q)"
    proof (cases "n \<in> M")
      case True
      with a show ?thesis
        using nw oldnew tpl neq by (auto simp: M_def New_def P C split: if_splits)
    next
      case False
      with a have pn: "getParent s n = Some q" by (simp add: unch)
      from pc [OF this] have nq: "n \<in> set (getChildren s q)" .
      have "q \<noteq> pl" using nq kids False by (auto simp: M_def)
      moreover have "q \<notin> New" using nq blank(2) [of q] by auto
      ultimately show ?thesis
        using nq pos False by (auto simp: C M_def New_def)
    qed
  next
    fix n c assume a: "c \<in> set (getChildren s' n)"
    consider (g) "n = ggp" | (p) "n = pl" | (w1) "n = w1" | (l1) "n = l1"
      | (w2) "n = w2" | (l2) "n = l2" | (o) "n \<notin> {ggp, pl} \<union> New"
      by (auto simp: New_def)
    then show "getParent s' c = Some n"
    proof cases
      case g
      with a have "c \<in> set xs \<union> set ys \<or> c = w1 \<or> c = t \<or> c = w2"
        by (auto simp: Cs)
      moreover have "getParent s' c = Some ggp" if x: "c \<in> set xs \<union> set ys"
      proof -
        have "c \<notin> M"
          using x nxy(1) d nxy2 [of c] sibnew [of c] by (auto simp: M_def)
        then show ?thesis using xyold(1) [OF x] by (simp add: unch)
      qed
      ultimately show ?thesis using Ps g by auto
    next
      case p with a show ?thesis by (simp add: Cs)
    next
      case w1 with a show ?thesis by (simp add: Cs Ps)
    next
      case l1 with a show ?thesis by (simp add: Cs psib')
    next
      case w2 with a show ?thesis by (simp add: Cs Ps)
    next
      case l2 with a show ?thesis by (simp add: Cs nsib')
    next
      case o
      with a have cn: "c \<in> set (getChildren s n)" by (auto simp: C New_def)
      then have pcn: "getParent s c = Some n" by (rule cp)
      have "c \<notin> M"
        using pcn o par sibpar(1) [of c] blank(1) [of c] by (auto simp: M_def)
      with pcn show ?thesis by (simp add: unch)
    qed
  next
    fix n c
    assume a: "isListItemNode s' (Some n)" "c \<in> set (getChildren s' n)" "isListNode s' (Some c)"
    show "getChildren s' n = [c]"
    proof (cases "n \<in> {ggp, pl} \<union> New")
      case True
      with a show ?thesis
        using nw oldnew lk by (auto simp: C K New_def isListItemNode_def split: if_splits)
    next
      case False
      with a have cn: "c \<in> set (getChildren s n)" and cs: "getChildren s' n = getChildren s n"
        by (auto simp: C New_def)
      have "c < fresh s" "n < fresh s" using wellFormed_allocated(1) [OF wf cn] by auto
      then have "node_kind (nodes s' c) = node_kind (nodes s c)"
        "node_kind (nodes s' n) = node_kind (nodes s n)" by (simp_all add: K new_defs)
      with a have "isListItemNode s (Some n)" "isListNode s (Some c)"
        by (simp_all add: isListItemNode_def isListNode_def)
      from wf_sole [OF wf this(1) cn this(2)] cs show ?thesis by simp
    qed
  next
    fix n q assume a: "isListItemNode s' (Some n)" "getParent s' n = Some q"
    show "node_kind (nodes s' q) \<noteq> ContentNode"
    proof (cases "n \<in> M")
      case True
      with a show ?thesis
        using nw oldnew lk psib' nsib'
        by (auto simp: M_def New_def P K isListItemNode_def split: if_splits)
    next
      case False
      with a have pn: "getParent s n = Some q" by (simp add: unch)
      have "q < fresh s" "n < fresh s" using wellFormed_allocated(2) [OF wf pn] by auto
      then have "node_kind (nodes s' q) = node_kind (nodes s q)"
        "node_kind (nodes s' n) = node_kind (nodes s n)" by (simp_all add: K new_defs)
      with a wf_item_parent [OF wf _ pn] show ?thesis by (simp add: isListItemNode_def)
    qed
  next
    fix n assume "n \<in> M" "n < fresh s" "getParent s n = None"
    then show "getParent s' n = None" using par sibpar(1) new_ge [of n] by (auto simp: M_def)
  qed
  with o show ?thesis by blast
qed

lemma indentMergeBoth_frame:
  assumes ia: "getFirstChild s a = Some ila" and ila: "isListNode s (Some ila)"
    and ic: "getFirstChild s c = Some ilc" and ilc: "isListNode s (Some ilc)"
    and par: "getParent s t = Some p"
    and pil: "getParent s ilc = Some c"
    and kids: "\<forall>x\<in>set (getChildren s ilc). getParent s x = Some ilc"
    and dist: "distinct (getChildren s ilc)"
    and neq: "ila \<noteq> p" "ila \<noteq> ilc" "ilc \<noteq> p" "c \<noteq> p" "c \<noteq> ila" "c \<noteq> ilc" "t \<noteq> ilc"
  shows "\<exists>s'. indentMergeBoth s t a c = s' \<and> fresh s' = fresh s \<and>
           (\<forall>m. getParent s' m =
                  (if m = t \<or> m \<in> set (getChildren s ilc) then Some ila
                   else if m = ilc then None
                   else getParent s m)) \<and>
           (\<forall>m. getChildren s' m =
                  (if m = ila then getChildren s ila @ t # getChildren s ilc
                   else if m = ilc then []
                   else if m = c then removeAll ilc (getChildren s c)
                   else if m = p then removeAll t (getChildren s p)
                   else getChildren s m)) \<and>
           (\<forall>m. node_kind (nodes s' m) = node_kind (nodes s m))"
proof -
  define cs where "cs = getChildren s ilc"
  define s1 where "s1 = append s ila t"
  define s2 where "s2 = appendAll s1 ila cs"
  define s3 where "s3 = remove s2 ilc"
  have tcs: "t \<notin> set cs" using kids par neq by (auto simp: cs_def)
  have ics: "ilc \<notin> set cs" using kids pil neq by (auto simp: cs_def)
  have c1: "getChildren s1 c = getChildren s c" "getChildren s1 ilc = cs"
    "getChildren s1 ila = getChildren s ila @ [t]"
    using neq par by (auto simp: s1_def cs_def)
  have k1: "isListNode s1 (Some ilc)" using ilc by (simp add: s1_def isListNode_def)
  have f1: "getFirstChild s1 c = Some ilc" using ic c1 by (simp add: getFirstChild_def)
  have p1: "\<forall>x\<in>set cs. getParent s1 x = Some ilc"
    using kids tcs by (auto simp: s1_def cs_def)
  have d: "distinct cs" using dist by (simp add: cs_def)
  have P2: "getParent s2 m = (if m \<in> set cs then Some ila else if m = t then Some ila
              else getParent s m)" for m
    by (simp add: s2_def getParent_appendAll s1_def)
  have C2: "getChildren s2 m = (if m = ila then getChildren s ila @ t # cs
              else if m = ilc then []
              else if m = p then removeAll t (getChildren s p)
              else getChildren s m)" for m
    unfolding s2_def getChildren_appendAll [OF d p1 neq(2) [symmetric]]
    using c1 neq par by (auto simp: s1_def)
  have P3: "getParent s3 m = (if m = t \<or> m \<in> set cs then Some ila
              else if m = ilc then None else getParent s m)" for m
    using tcs ics neq by (auto simp: s3_def P2)
  have pil2: "getParent s2 ilc = Some c" using pil ics neq by (simp add: P2)
  have C3: "getChildren s3 m = (if m = ila then getChildren s ila @ t # cs
              else if m = ilc then []
              else if m = c then removeAll ilc (getChildren s c)
              else if m = p then removeAll t (getChildren s p)
              else getChildren s m)" for m
    using neq by (auto simp: s3_def pil2 C2)
  have "indentMergeBoth s t a c = markAllDirty s3 (getChildren s3 ila)"
    using ia ila f1 k1 c1
    by (simp add: indentMergeBoth_def Let_def s1_def [symmetric] s2_def [symmetric]
        s3_def [symmetric])
  moreover have "fresh s3 = fresh s" by (simp add: s3_def s2_def s1_def remove_def)
  moreover have "node_kind (nodes s3 m) = node_kind (nodes s m)" for m
    by (simp add: s3_def s2_def s1_def)
  ultimately show ?thesis using P3 C3 by (simp add: cs_def)
qed

lemma indent_both_frame:
  assumes nn: "\<not> isNestedListNode s (Some t)"
    and par: "getParent s t = Some p"
    and prv: "getPreviousSibling s t = Some a"
    and nxt: "getNextSibling s t = Some c"
    and anest: "isNestedListNode s (Some a)"
    and cnest: "isNestedListNode s (Some c)"
    and ia: "getFirstChild s a = Some ila"
    and ic: "getFirstChild s c = Some ilc"
    and pil: "getParent s ilc = Some c"
    and kids: "\<forall>x\<in>set (getChildren s ilc). getParent s x = Some ilc"
    and dist: "distinct (getChildren s ilc)"
    and neq: "ila \<noteq> p" "ila \<noteq> ilc" "ilc \<noteq> p" "c \<noteq> p" "c \<noteq> ila" "c \<noteq> ilc" "t \<noteq> ilc"
  shows "\<exists>s'. indentListItem s t = Some s' \<and> fresh s' = fresh s \<and>
           (\<forall>m. getParent s' m =
                  (if m = t \<or> m \<in> set (getChildren s ilc) then Some ila
                   else if m = ilc then None
                   else getParent s m)) \<and>
           (\<forall>m. getChildren s' m =
                  (if m = ila then getChildren s ila @ t # getChildren s ilc
                   else if m = ilc then []
                   else if m = c then removeAll ilc (getChildren s c)
                   else if m = p then removeAll t (getChildren s p)
                   else getChildren s m)) \<and>
           (\<forall>m. node_kind (nodes s' m) = node_kind (nodes s m))"
proof -
  from anest ia have ila: "isListNode s (Some ila)" by (simp add: isNestedListNode_def)
  from cnest ic have ilc: "isListNode s (Some ilc)" by (simp add: isNestedListNode_def)
  from indentMergeBoth_frame [OF ia ila ic ilc par pil kids dist neq]
  obtain s' where m: "indentMergeBoth s t a c = s'" and F: "fresh s' = fresh s"
    and P: "\<And>m. getParent s' m =
                  (if m = t \<or> m \<in> set (getChildren s ilc) then Some ila
                   else if m = ilc then None
                   else getParent s m)"
    and C: "\<And>m. getChildren s' m =
                  (if m = ila then getChildren s ila @ t # getChildren s ilc
                   else if m = ilc then []
                   else if m = c then removeAll ilc (getChildren s c)
                   else if m = p then removeAll t (getChildren s p)
                   else getChildren s m)"
    and K: "\<And>m. node_kind (nodes s' m) = node_kind (nodes s m)"
    by blast
  have "indentListItem s t =
          Some (if isListNode s' (Some p) then markAllDirty s' (getChildren s' p) else s')"
    unfolding indentListItem_def Let_def using nn prv nxt anest cnest par m by simp
  then show ?thesis using F P C K by simp
qed


lemma siblings_distinct:
  assumes wf: "wellFormed s"
    and prv: "getPreviousSibling s t = Some a" and nxt: "getNextSibling s t = Some c"
  shows "a \<noteq> c"
proof -
  from previous_sibling_in [OF prv] obtain p where par: "getParent s t = Some p" by blast
  from wf_parent_child [OF wf par] obtain xs ys
    where pos: "getChildren s p = xs @ t # ys" and tx: "t \<notin> set xs"
    by (auto dest: split_list_first)
  from wf_distinct [OF wf, of p] pos have d: "set xs \<inter> set ys = {}" by auto
  from prv getPreviousSibling_at [OF par pos tx] have "a \<in> set xs"
    by (auto split: if_splits)
  moreover from nxt getNextSibling_at [OF par pos tx] have "c \<in> set ys"
    by (auto split: list.splits)
  ultimately show ?thesis using d by auto
qed

lemma indent_both_preserved:
  assumes wf: "wellFormed s"
    and nn: "\<not> isNestedListNode s (Some t)" and li: "isListItemNode s (Some t)"
    and prv: "getPreviousSibling s t = Some a" and anest: "isNestedListNode s (Some a)"
    and nxt: "getNextSibling s t = Some c" and cnest: "isNestedListNode s (Some c)"
  shows "\<exists>s'. indentListItem s t = Some s' \<and> preserves s s'"
proof -
  from previous_sibling_in [OF prv] obtain p where par: "getParent s t = Some p"
    and ap: "a \<in> set (getChildren s p)" and at: "a \<noteq> t" by blast
  from next_sibling_in [OF nxt] par have cp': "c \<in> set (getChildren s p)" by auto
  from nested_inner [OF anest] obtain ila where ia: "getFirstChild s a = Some ila"
    and ilaa: "ila \<in> set (getChildren s a)" and ilal: "isListNode s (Some ila)"
    and ali: "isListItemNode s (Some a)" by blast
  from nested_inner [OF cnest] obtain ilc where ic: "getFirstChild s c = Some ilc"
    and ilcc: "ilc \<in> set (getChildren s c)" and ilcl: "isListNode s (Some ilc)"
    and cli: "isListItemNode s (Some c)" by blast
  note cp = wf_child_parent [OF wf] and pc = wf_parent_child [OF wf]
  define cs where "cs = getChildren s ilc"
  have pa: "getParent s a = Some p" and pcc: "getParent s c = Some p"
    and pila: "getParent s ila = Some a" and pilc: "getParent s ilc = Some c"
    using cp ap cp' ilaa ilcc by auto
  have kids: "\<forall>x\<in>set (getChildren s ilc). getParent s x = Some ilc" using cp by simp
  have pcs: "getParent s x = Some ilc" if "x \<in> set cs" for x
    using that cp by (simp add: cs_def)
  have dist: "distinct (getChildren s ilc)" by (rule wf_distinct [OF wf])
  have ac: "a \<noteq> c" by (rule siblings_distinct [OF wf prv nxt])
  have tc: "t \<noteq> c" using nn cnest by auto
  have lk: "node_kind (nodes s t) = ListItemNode" "node_kind (nodes s a) = ListItemNode"
    "node_kind (nodes s c) = ListItemNode"
    "node_kind (nodes s ila) \<noteq> ListItemNode" "node_kind (nodes s ilc) \<noteq> ListItemNode"
    "node_kind (nodes s ila) \<noteq> ContentNode" "node_kind (nodes s ilc) \<noteq> ContentNode"
    using li ali cli ilal ilcl
    by (auto simp: isListItemNode_def isListNode_def split: kind.splits)
  have neq: "ila \<noteq> p" "ila \<noteq> ilc" "ilc \<noteq> p" "c \<noteq> p" "c \<noteq> ila" "c \<noteq> ilc" "t \<noteq> ilc"
    using wf_neq_grandparent [OF wf pila pa] wf_neq_grandparent [OF wf pilc pcc]
      wf_neq_parent [OF wf pcc] wf_neq_parent [OF wf pilc] pila pilc ac lk by auto
  have neq2: "t \<noteq> ila" "a \<noteq> ila" "a \<noteq> ilc" "t \<noteq> p" "a \<noteq> p"
    using lk wf_neq_parent [OF wf par] wf_neq_parent [OF wf pa] by auto
  have tcs: "t \<notin> set cs" "ilc \<notin> set cs" "a \<notin> set cs" "ila \<notin> set cs" "c \<notin> set cs"
    using pcs [of t] pcs [of ilc] pcs [of a] pcs [of ila] pcs [of c]
      par pilc pa pila pcc neq neq2 by auto
  have pncs: "p \<notin> set cs"
  proof
    assume "p \<in> set cs"
    from wf_neq_great_grandparent [OF wf pcc pcs [OF this] pilc] show False by simp
  qed
  have tila: "t \<notin> set (getChildren s ila)" using cp [of t ila] par neq by auto
  have csila: "set cs \<inter> set (getChildren s ila) = {}"
  proof -
    have False if "x \<in> set cs" "x \<in> set (getChildren s ila)" for x
      using pcs [OF that(1)] cp [OF that(2)] neq by simp
    then show ?thesis by auto
  qed
  have solec: "getChildren s c = [ilc]" by (rule wf_sole [OF wf cli ilcc ilcl])
  from indent_both_frame [OF nn par prv nxt anest cnest ia ic pilc kids dist neq]
  obtain s' where i: "indentListItem s t = Some s'"
    and F: "fresh s' = fresh s"
    and P: "\<And>m. getParent s' m =
                  (if m = t \<or> m \<in> set cs then Some ila
                   else if m = ilc then None
                   else getParent s m)"
    and C: "\<And>m. getChildren s' m =
                  (if m = ila then getChildren s ila @ t # cs
                   else if m = ilc then []
                   else if m = c then removeAll ilc (getChildren s c)
                   else if m = p then removeAll t (getChildren s p)
                   else getChildren s m)"
    and K: "\<And>m. node_kind (nodes s' m) = node_kind (nodes s m)"
    unfolding cs_def by blast
  have KI: "isListItemNode s' = isListItemNode s" "isListNode s' = isListNode s"
    by (auto simp: fun_eq_iff isListItemNode_def isListNode_def K split: option.splits)
  define M where "M = {t, ilc} \<union> set cs"
  have unch: "getParent s' m = getParent s m" if "m \<notin> M" for m
    using that by (auto simp: P M_def)
  have Cs: "getChildren s' ila = getChildren s ila @ t # cs" "getChildren s' ilc = []"
    "getChildren s' c = []" "getChildren s' p = removeAll t (getChildren s p)"
    using neq solec by (auto simp: C)
  have Co: "getChildren s' n = getChildren s n" if "n \<notin> {ila, ilc, c, p}" for n
    using that by (auto simp: C)
  have alloc: "t < fresh s" "ila < fresh s" "p < fresh s" "ilc < fresh s"
    using wellFormed_allocated(2) [OF wf par] wellFormed_allocated(2) [OF wf pila]
      wellFormed_allocated(2) [OF wf pilc] by auto
  have csalloc: "x < fresh s" if "x \<in> set cs" for x
    using wellFormed_allocated(2) [OF wf pcs [OF that]] by simp
  have pk: "node_kind (nodes s p) \<noteq> ContentNode"
    using wf_item_parent [OF wf li par] .
  have up_ila: "path s' ila r (Suc (Suc j))" if j: "path s p r j" for r j
  proof -
    have pt: "path s t r (Suc j)" using par j by (rule path.up)
    have pc0: "path s c r (Suc j)" using pcc j by (rule path.up)
    have pilc0: "path s ilc r (Suc (Suc j))" using pilc pc0 by (rule path.up)
    have "path s' p r j"
    proof (rule path_transfer [OF j])
      fix m i assume a: "path s m r i" "i \<le> j"
      have "m \<noteq> t" using path_deeper_neq [OF a(1) pt] a(2) by simp
      moreover have "m \<noteq> ilc" using path_deeper_neq [OF a(1) pilc0] a(2) by simp
      moreover have "m \<notin> set cs"
      proof
        assume "m \<in> set cs"
        then have "path s m r (Suc (Suc (Suc j)))" using pcs pilc0 by (auto intro: path.up)
        from path_deeper_neq [OF a(1) this] a(2) show False by simp
      qed
      ultimately show "getParent s' m = getParent s m" by (intro unch) (simp add: M_def)
    qed
    moreover have "getParent s' a = Some p" "getParent s' ila = Some a"
      using pa pila at neq neq2 tcs by (auto simp: P)
    ultimately show ?thesis by (auto intro: path.up)
  qed
  have "preserves s s'"
  proof (rule step_preserved [OF wf, where M = M and X = "{ilc}"])
    fix n q assume a: "getParent s' n = Some q"
    show "n \<in> set (getChildren s' q)"
    proof (cases "n \<in> M")
      case True
      with a have "q = ila" "n = t \<or> n \<in> set cs"
        using neq tcs by (auto simp: M_def P split: if_splits)
      then show ?thesis by (auto simp: Cs)
    next
      case False
      with a have pn: "getParent s n = Some q" by (simp add: unch)
      from pc [OF this] have nq: "n \<in> set (getChildren s q)" .
      have "q \<noteq> ilc" using nq False by (auto simp: M_def cs_def)
      moreover have "q \<noteq> c" using nq solec False by (auto simp: M_def)
      ultimately show ?thesis using nq False by (auto simp: C M_def)
    qed
  next
    fix n x assume a: "x \<in> set (getChildren s' n)"
    consider (ila) "n = ila" | (ilc) "n = ilc" | (c) "n = c" | (p) "n = p"
      | (o) "n \<notin> {ila, ilc, c, p}" by auto
    then show "getParent s' x = Some n"
    proof cases
      case ila
      with a have "x \<in> set (getChildren s ila) \<or> x = t \<or> x \<in> set cs" by (auto simp: Cs)
      then have "getParent s' x = Some ila"
      proof (elim disjE)
        assume x: "x \<in> set (getChildren s ila)"
        have "x \<notin> M" using x tila csila cp [OF x] pilc neq by (auto simp: M_def)
        then show ?thesis using cp [OF x] by (simp add: unch)
      qed (simp_all add: P)
      then show ?thesis using ila by simp
    next
      case ilc with a show ?thesis by (simp add: Cs)
    next
      case c with a show ?thesis by (simp add: Cs)
    next
      case p
      with a have x: "x \<in> set (getChildren s p)" "x \<noteq> t" by (auto simp: Cs)
      have "x \<notin> M" using x cp [OF x(1)] pilc pcs [of x] neq by (auto simp: M_def)
      then show ?thesis using cp [OF x(1)] p by (simp add: unch)
    next
      case o
      with a have x: "x \<in> set (getChildren s n)" by (simp add: Co)
      have "x \<notin> M" using cp [OF x] o par pilc pcs [of x] by (auto simp: M_def)
      then show ?thesis using cp [OF x] by (simp add: unch)
    qed
  next
    fix n
    have "distinct (getChildren s ila @ t # cs)"
      using wf_distinct [OF wf, of ila] dist tila csila tcs by (auto simp: cs_def)
    then show "distinct (getChildren s' n)"
      using wf_distinct [OF wf, of n] by (auto simp: C distinct_removeAll)
  next
    fix n assume "fresh s' \<le> n"
    then show "getParent s' n = None \<and> getChildren s' n = []"
      using wf_blank [OF wf, of n] alloc csalloc [of n] by (auto simp: P C F)
  next
    fix n x
    assume a: "isListItemNode s' (Some n)" "x \<in> set (getChildren s' n)" "isListNode s' (Some x)"
    have n: "n \<noteq> ila" "n \<noteq> ilc" "n \<noteq> c"
      using a lk Cs by (auto simp: KI isListItemNode_def)
    show "getChildren s' n = [x]"
    proof (cases "n = p")
      case True
      with a have "x \<in> set (getChildren s p)" by (auto simp: Cs)
      with a True have "getChildren s p = [x]" using wf_sole [OF wf, of p x] by (simp add: KI)
      with pc [OF par] have "t = x" by simp
      with a lk show ?thesis by (auto simp: KI isListNode_def)
    next
      case False
      with n have "getChildren s' n = getChildren s n" by (simp add: Co)
      with a show ?thesis using wf_sole [OF wf, of n x] by (simp add: KI)
    qed
  next
    fix n q assume a: "isListItemNode s' (Some n)" "getParent s' n = Some q"
    show "node_kind (nodes s' q) \<noteq> ContentNode"
    proof (cases "n \<in> M")
      case True
      with a show ?thesis using lk by (auto simp: M_def P K split: if_splits)
    next
      case False
      with a wf_item_parent [OF wf, of n q] show ?thesis by (simp add: unch KI K)
    qed
  next
    show "fresh s \<le> fresh s'" by (simp add: F)
  next
    fix n show "node_kind (nodes s' n) = node_kind (nodes s n)" by (rule K)
  next
    fix n assume "fresh s \<le> n" "n < fresh s'"
    then show "node_kind (nodes s' n) \<noteq> ContentNode" by (simp add: F)
  next
    fix x assume "x < fresh s" "node_kind (nodes s x) = ContentNode"
    then show "getChildren s' x = getChildren s x"
      using pk lk by (auto simp: C)
  next
    fix m assume "m \<notin> M"
    then show "getParent s' m = getParent s m" by (rule unch)
  next
    fix m r k assume m: "m \<in> M" "m \<notin> {ilc}" "path s m r k"
    then have mc: "m = t \<or> m \<in> set cs" by (auto simp: M_def)
    have "\<exists>j. path s p r j"
    proof (cases "m = t")
      case True
      with m(3) path_parent [OF _ par] show ?thesis by blast
    next
      case False
      with mc have "getParent s m = Some ilc" using pcs by simp
      from path_parent [OF m(3) this] obtain j1 where "path s ilc r j1" by blast
      from path_parent [OF this pilc] obtain j2 where "path s c r j2" by blast
      from path_parent [OF this pcc] show ?thesis by blast
    qed
    then obtain j where "path s p r j" by blast
    from up_ila [OF this] have "path s' ila r (Suc (Suc j))" .
    moreover have "getParent s' m = Some ila" using mc by (auto simp: P)
    ultimately show "\<exists>k'. path s' m r k'" by (auto intro: path.up)
  next
    fix m q assume a: "m \<notin> {ilc}" "m \<notin> M" "getParent s m = Some q"
    from pc [OF a(3)] a(2) show "q \<notin> {ilc}" by (auto simp: M_def cs_def)
  next
    fix x assume "x \<in> {ilc}"
    then have x: "x = ilc" by simp
    have "getParent s' ilc = None" using neq tcs by (auto simp: P)
    then have "path s' ilc ilc 0" by (rule path.top)
    with x lk show "(\<exists>r k. path s' x r k) \<and>
        (x < fresh s \<longrightarrow> node_kind (nodes s x) \<noteq> ContentNode)" by auto
  next
    fix n assume "n \<in> M" "n < fresh s" "getParent s n = None"
    then show "getParent s' n = None" using par pilc pcs by (auto simp: M_def)
  qed
  with i show ?thesis by blast
qed

lemma preserves_refl: "wellFormed s \<Longrightarrow> preserves s s"
  by (rule same_nodes_preserved) simp_all

lemma preserves_trans:
  assumes "preserves s s'" and "preserves s' s''"
  shows "preserves s s''"
  using assms unfolding preserves_def by auto

lemma nested_Some: "isNestedListNode s x \<Longrightarrow> \<exists>n. x = Some n"
  by (cases x) (simp_all add: isNestedListNode_def)

lemma indentListItem_preserved:
  assumes wf: "wellFormed s" and li: "isListItemNode s (Some t)"
  shows "\<exists>s'. indentListItem s t = Some s' \<and> preserves s s'"
proof (cases "isNestedListNode s (Some t)")
  case True
  then have "indentListItem s t = Some s" by (simp add: indentListItem_def)
  then show ?thesis using preserves_refl [OF wf] by simp
next
  case nn: False
  show ?thesis
  proof (cases "isNestedListNode s (getNextSibling s t)")
    case nx: True
    then obtain c where c: "getNextSibling s t = Some c" using nested_Some by blast
    show ?thesis
    proof (cases "isNestedListNode s (getPreviousSibling s t)")
      case True
      then obtain a where a: "getPreviousSibling s t = Some a" using nested_Some by blast
      from True nx a c show ?thesis
        using indent_both_preserved [OF wf nn li a _ c] by simp
    next
      case False
      with nx c show ?thesis using indent_next_preserved [OF wf nn li c] by simp
    qed
  next
    case nx: False
    show ?thesis
    proof (cases "isNestedListNode s (getPreviousSibling s t)")
      case True
      then obtain a where a: "getPreviousSibling s t = Some a" using nested_Some by blast
      with True nx show ?thesis using indent_previous_preserved [OF wf nn li a] by simp
    next
      case pv: False
      show ?thesis
      proof (cases "getParent s t")
        case None
        then have "indentListItem s t = Some s"
          using nn nx pv by (simp add: indentListItem_def indentCreateNested_def)
        then show ?thesis using preserves_refl [OF wf] by simp
      next
        case (Some p)
        show ?thesis
        proof (cases "isListNode s (Some p)")
          case True
          then show ?thesis using indent_create_preserved [OF wf nn li Some _ pv nx] by simp
        next
          case False
          then have "getTag s p = None"
            by (auto simp: getTag_def isListNode_def split: kind.splits)
          then have "indentListItem s t = Some s"
            using nn nx pv Some False
            by (simp add: indentListItem_def indentCreateNested_def)
          then show ?thesis using preserves_refl [OF wf] by simp
        qed
      qed
    qed
  qed
qed

lemma outdentListItem_preserved:
  assumes wf: "wellFormed s" and li: "isListItemNode s (Some t)"
  shows "\<exists>s'. outdentListItem s t = Some s' \<and> preserves s s'"
proof (cases "isNestedListNode s (Some t)")
  case True
  then have "outdentListItem s t = Some s" by (simp add: outdentListItem_def)
  then show ?thesis using preserves_refl [OF wf] by simp
next
  case nn: False
  define pl where "pl = getParent s t"
  define gp where "gp = (case pl of None \<Rightarrow> None | Some x \<Rightarrow> getParent s x)"
  define ggp where "ggp = (case gp of None \<Rightarrow> None | Some x \<Rightarrow> getParent s x)"
  show ?thesis
  proof (cases "isListNode s ggp \<and> isListItemNode s gp \<and> isListNode s pl")
    case False
    then have F: "\<not> (isListNode s
                (case (case getParent s t of None \<Rightarrow> None | Some pl \<Rightarrow> getParent s pl) of
                   None \<Rightarrow> None | Some gp \<Rightarrow> getParent s gp) \<and>
              isListItemNode s (case getParent s t of None \<Rightarrow> None | Some pl \<Rightarrow> getParent s pl) \<and>
              isListNode s (getParent s t))"
      unfolding pl_def gp_def ggp_def .
    have "outdentListItem s t = Some s"
      unfolding outdentListItem_def Let_def
      by (subst if_not_P [OF nn], subst if_not_P [OF F], rule refl)
    then show ?thesis using preserves_refl [OF wf] by simp
  next
    case True
    then obtain pl' gp' ggp' where e: "pl = Some pl'" "gp = Some gp'" "ggp = Some ggp'"
      by (cases pl; cases gp; cases ggp) (simp_all add: isListNode_def isListItemNode_def)
    then have par: "getParent s t = Some pl'" "getParent s pl' = Some gp'"
      "getParent s gp' = Some ggp'"
      by (simp_all add: pl_def gp_def ggp_def)
    from True e have kinds: "isListNode s (Some pl')" "isListItemNode s (Some gp')"
      "isListNode s (Some ggp')" by simp_all
    show ?thesis
    proof (cases "getFirstChild s pl' = Some t")
      case True
      then show ?thesis by (rule outdent_first_preserved [OF wf nn li par kinds])
    next
      case nf: False
      then have nf': "Some t \<noteq> getFirstChild s pl'" by auto
      show ?thesis
      proof (cases "Some t = getLastChild s pl'")
        case True
        then show ?thesis by (rule outdent_last_preserved [OF wf nn li par kinds nf'])
      next
        case False
        then show ?thesis by (rule outdent_split_preserved [OF wf nn li par kinds nf'])
      qed
    qed
  qed
qed

lemma forEach_preserved:
  assumes step: "\<And>s t. wellFormed s \<Longrightarrow> isListItemNode s (Some t) \<Longrightarrow>
                   \<exists>s'. f s t = Some s' \<and> preserves s s'"
    and wf: "wellFormed s"
    and ts: "\<forall>t\<in>set ts. t < fresh s \<and> isListItemNode s (Some t)"
  shows "\<exists>s'. forEach f ts s = Some s' \<and> preserves s s'"
  using wf ts
proof (induction ts arbitrary: s)
  case Nil
  then show ?case by (simp add: preserves_refl)
next
  case (Cons t ts)
  from Cons.prems have t: "isListItemNode s (Some t)" by simp
  from step [OF Cons.prems(1) t] obtain s1 where s1: "f s t = Some s1" "preserves s s1"
    by blast
  then have wf1: "wellFormed s1" by (simp add: preserves_def)
  have "\<forall>x\<in>set ts. x < fresh s1 \<and> isListItemNode s1 (Some x)"
    using Cons.prems(2) s1(2) by (auto simp: preserves_def isListItemNode_def)
  from Cons.IH [OF wf1 this] obtain s' where "forEach f ts s1 = Some s'" "preserves s1 s'"
    by blast
  with s1 show ?case using preserves_trans by auto
qed

lemma handleIndent_preserved:
  assumes "wellFormed s" and "\<forall>t\<in>set ts. t < fresh s \<and> isListItemNode s (Some t)"
  shows "\<exists>s'. handleIndent s ts = Some s' \<and> preserves s s'"
  unfolding handleIndent_def
  using indentListItem_preserved assms by (rule forEach_preserved)

lemma handleOutdent_preserved:
  assumes "wellFormed s" and "\<forall>t\<in>set ts. t < fresh s \<and> isListItemNode s (Some t)"
  shows "\<exists>s'. handleOutdent s ts = Some s' \<and> preserves s s'"
  unfolding handleOutdent_def
  using outdentListItem_preserved assms by (rule forEach_preserved)

section \<open>No data loss\<close>

lemma reaches_iff:
  "reaches s c n \<longleftrightarrow>
     c = n \<or> (case getParent s c of None \<Rightarrow> False | Some p \<Rightarrow> reaches s p n)"
  by (subst reaches.simps) (auto split: option.splits)

lemma path_reaches: "path s c r k \<Longrightarrow> reaches s c r"
  by (induction rule: path.induct) (auto intro: reaches.intros)

lemma reaches_path:
  "reaches s c r \<Longrightarrow> getParent s r = None \<Longrightarrow> \<exists>k. path s c r k"
  by (induction rule: reaches.induct) (auto intro: path.intros)

lemma subtreeContent_top:
  "getParent s r = None \<Longrightarrow> subtreeContent s r = leafContent s r"
  using path_reaches reaches_path by (auto simp: subtreeContent_def leafContent_def)

lemma allocated_cases: "11 \<le> n \<or> n \<in> {0, 1, 2, 3, 4, 5, 6, 7, 8, 9, 10 :: nat}"
  by simp arith

lemma mergeState_nodes:
  "getParent mergeState n =
     (if n = 0 then None else if n = 1 \<or> n = 2 \<or> n = 3 then Some 0
      else if n = 4 then Some 1 else if n = 5 then Some 4 else if n = 6 then Some 3
      else if n = 7 then Some 6 else if n = 8 then Some 2 else if n = 9 then Some 5
      else if n = 10 then Some 7 else None)"
  "getChildren mergeState n =
     (if n = 0 then [1, 2, 3] else if n = 1 then [4] else if n = 2 then [8]
      else if n = 3 then [6] else if n = 4 then [5] else if n = 5 then [9]
      else if n = 6 then [7] else if n = 7 then [10] else [])"
  "node_kind (nodes mergeState n) =
     (if n = 0 \<or> n = 4 \<or> n = 6 then ListNode UL
      else if n = 1 \<or> n = 2 \<or> n = 3 \<or> n = 5 \<or> n = 7 then ListItemNode
      else ContentNode)"
proof -
  from allocated_cases [of n] consider "n = 0" | "n = 1" | "n = 2" | "n = 3" | "n = 4"
    | "n = 5" | "n = 6" | "n = 7" | "n = 8" | "n = 9" | "n = 10" | "11 \<le> n" by auto
  then have "getParent mergeState n =
     (if n = 0 then None else if n = 1 \<or> n = 2 \<or> n = 3 then Some 0
      else if n = 4 then Some 1 else if n = 5 then Some 4 else if n = 6 then Some 3
      else if n = 7 then Some 6 else if n = 8 then Some 2 else if n = 9 then Some 5
      else if n = 10 then Some 7 else None) \<and>
   getChildren mergeState n =
     (if n = 0 then [1, 2, 3] else if n = 1 then [4] else if n = 2 then [8]
      else if n = 3 then [6] else if n = 4 then [5] else if n = 5 then [9]
      else if n = 6 then [7] else if n = 7 then [10] else []) \<and>
   node_kind (nodes mergeState n) =
     (if n = 0 \<or> n = 4 \<or> n = 6 then ListNode UL
      else if n = 1 \<or> n = 2 \<or> n = 3 \<or> n = 5 \<or> n = 7 then ListItemNode
      else ContentNode)"
    by cases (simp_all add: mergeState_def storeOf_def getParent_def getChildren_def)
  then show
  "getParent mergeState n =
     (if n = 0 then None else if n = 1 \<or> n = 2 \<or> n = 3 then Some 0
      else if n = 4 then Some 1 else if n = 5 then Some 4 else if n = 6 then Some 3
      else if n = 7 then Some 6 else if n = 8 then Some 2 else if n = 9 then Some 5
      else if n = 10 then Some 7 else None)"
  "getChildren mergeState n =
     (if n = 0 then [1, 2, 3] else if n = 1 then [4] else if n = 2 then [8]
      else if n = 3 then [6] else if n = 4 then [5] else if n = 5 then [9]
      else if n = 6 then [7] else if n = 7 then [10] else [])"
  "node_kind (nodes mergeState n) =
     (if n = 0 \<or> n = 4 \<or> n = 6 then ListNode UL
      else if n = 1 \<or> n = 2 \<or> n = 3 \<or> n = 5 \<or> n = 7 then ListItemNode
      else ContentNode)"
    by simp_all
qed

lemma mergeState_fresh: "fresh mergeState = 11"
  by (simp add: mergeState_def storeOf_def)


lemma mergeState_kinds:
  "isListItemNode mergeState (Some n) \<longleftrightarrow> n = 1 \<or> n = 2 \<or> n = 3 \<or> n = 5 \<or> n = 7"
  "isListNode mergeState (Some n) \<longleftrightarrow> n = 0 \<or> n = 4 \<or> n = 6"
  by (simp_all add: isListItemNode_def isListNode_def mergeState_nodes)

lemma mergeState_paths:
  "\<exists>r k. path mergeState n r k"
proof -
  note P = mergeState_nodes(1)
  have p0: "path mergeState 0 0 0" by (rule path.top) (simp add: P)
  have p1: "path mergeState 1 0 1" using p0 by (subst path.simps) (simp add: P)
  have p2: "path mergeState 2 0 1" using p0 by (subst path.simps) (simp add: P)
  have p3: "path mergeState 3 0 1" using p0 by (subst path.simps) (simp add: P)
  have p4: "path mergeState 4 0 2" using p1 by (subst path.simps) (simp add: P)
  have p5: "path mergeState 5 0 3" using p4 by (subst path.simps) (simp add: P)
  have p6: "path mergeState 6 0 2" using p3 by (subst path.simps) (simp add: P)
  have p7: "path mergeState 7 0 3" using p6 by (subst path.simps) (simp add: P)
  have p8: "path mergeState 8 0 2" using p2 by (subst path.simps) (simp add: P)
  have p9: "path mergeState 9 0 4" using p5 by (subst path.simps) (simp add: P)
  have p10: "path mergeState 10 0 4" using p7 by (subst path.simps) (simp add: P)
  have pn: "path mergeState n n 0" if "11 \<le> n" using that by (intro path.top) (simp add: P)
  from allocated_cases [of n] p0 p1 p2 p3 p4 p5 p6 p7 p8 p9 p10 pn show ?thesis
    by auto
qed

lemma mergeState_wellFormed: "wellFormed mergeState"
proof (rule wellFormedI)
  fix n p assume "getParent mergeState n = Some p"
  then show "n \<in> set (getChildren mergeState p)"
    by (auto simp: mergeState_nodes split: if_splits)
next
  fix n c assume "c \<in> set (getChildren mergeState n)"
  then show "getParent mergeState c = Some n"
    by (auto simp: mergeState_nodes split: if_splits)
next
  fix n show "distinct (getChildren mergeState n)" by (simp add: mergeState_nodes)
next
  fix n assume "fresh mergeState \<le> n"
  then show "getParent mergeState n = None \<and> getChildren mergeState n = []"
    by (simp add: mergeState_nodes mergeState_fresh)
next
  fix n c
  assume "isListItemNode mergeState (Some n)" "c \<in> set (getChildren mergeState n)"
    "isListNode mergeState (Some c)"
  then show "getChildren mergeState n = [c]"
    by (auto simp: mergeState_kinds mergeState_nodes split: if_splits)
next
  fix n p
  assume "isListItemNode mergeState (Some n)" "getParent mergeState n = Some p"
  then show "node_kind (nodes mergeState p) \<noteq> ContentNode"
    by (auto simp: mergeState_kinds mergeState_nodes split: if_splits)
next
  fix n show "\<exists>r k. path mergeState n r k" by (rule mergeState_paths)
qed

lemma preserves_subtreeContent:
  assumes "preserves s s'" and "r < fresh s" and "getParent s r = None"
  shows "wellFormed s' \<and> subtreeContent s' r = subtreeContent s r"
proof -
  from assms have "getParent s' r = None" by (simp add: preserves_def)
  with assms show ?thesis by (simp add: subtreeContent_top preserves_def)
qed

text \<open>
  Claim C5, as amended. In a well-formed tree, every batch of indent operations and
  every batch of outdent operations on ListItems of the tree returns, leaves the tree
  well-formed (so no node is reachable twice), and leaves the set of leaf content nodes
  below every top node of the tree as it was.
\<close>

theorem batch_keeps_content:
  assumes "wellFormed s"
    and "\<forall>t\<in>set ts. t < fresh s \<and> isListItemNode s (Some t)"
    and "r < fresh s" and "getParent s r = None"
  shows "\<exists>s'. (if d = Indent then handleIndent s ts else handleOutdent s ts) = Some s' \<and>
              wellFormed s' \<and> subtreeContent s' r = subtreeContent s r"
proof (cases "d = Indent")
  case True
  from handleIndent_preserved [OF assms(1,2)] obtain s'
    where "handleIndent s ts = Some s'" "preserves s s'" by blast
  with True preserves_subtreeContent [OF _ assms(3,4)] show ?thesis by auto
next
  case False
  from handleOutdent_preserved [OF assms(1,2)] obtain s'
    where "handleOutdent s ts = Some s'" "preserves s s'" by blast
  with False preserves_subtreeContent [OF _ assms(3,4)] show ?thesis by auto
qed

theorem batch_keeps_content_witness:
  "wellFormed mergeState \<and> 2 < fresh mergeState \<and> isListItemNode mergeState (Some 2) \<and>
   0 < fresh mergeState \<and> getParent mergeState 0 = None \<and>
   (\<exists>s'. handleIndent mergeState [2] = Some s' \<and> wellFormed s' \<and>
         subtreeContent s' 0 = subtreeContent mergeState 0)"
proof -
  have h1: "wellFormed mergeState" by (rule mergeState_wellFormed)
  have h2: "\<forall>t\<in>set [2]. t < fresh mergeState \<and> isListItemNode mergeState (Some t)"
    by (simp add: mergeState_fresh mergeState_kinds)
  have h3: "0 < fresh mergeState" by (simp add: mergeState_fresh)
  have h4: "getParent mergeState 0 = None" by (simp add: mergeState_nodes)
  from batch_keeps_content [OF h1 h2 h3 h4, of Indent] h1 h2 h3 h4
  show ?thesis by simp
qed

lemma mergeState_indent:
  "\<exists>s'. handleIndent mergeState [2] = Some s' \<and> fresh s' = 11 \<and>
     (\<forall>m. getParent s' m =
            (if m = 2 \<or> m = 7 then Some 4 else if m = 6 then None
             else getParent mergeState m)) \<and>
     (\<forall>m. getChildren s' m =
            (if m = 4 then [5, 2, 7] else if m = 6 then [] else if m = 3 then []
             else if m = 0 then [1, 3] else getChildren mergeState m)) \<and>
     (\<forall>m. node_kind (nodes s' m) = node_kind (nodes mergeState m))"
proof -
  note N = mergeState_nodes
  have nn: "\<not> isNestedListNode mergeState (Some 2)"
    by (simp add: isNestedListNode_def getFirstChild_def isListNode_def N)
  have par: "getParent mergeState 2 = Some 0" by (simp add: N)
  have prv: "getPreviousSibling mergeState 2 = Some 1"
    by (simp add: getPreviousSibling_def getPreviousSiblings_def N)
  have nxt: "getNextSibling mergeState 2 = Some 3"
    by (simp add: getNextSibling_def getNextSiblings_def N)
  have anest: "isNestedListNode mergeState (Some 1)"
    by (simp add: isNestedListNode_def getFirstChild_def isListNode_def isListItemNode_def N)
  have cnest: "isNestedListNode mergeState (Some 3)"
    by (simp add: isNestedListNode_def getFirstChild_def isListNode_def isListItemNode_def N)
  have ia: "getFirstChild mergeState 1 = Some 4" by (simp add: getFirstChild_def N)
  have ic: "getFirstChild mergeState 3 = Some 6" by (simp add: getFirstChild_def N)
  have pil: "getParent mergeState 6 = Some 3" by (simp add: N)
  have kids: "\<forall>x\<in>set (getChildren mergeState 6). getParent mergeState x = Some 6"
    by (simp add: N)
  have dist: "distinct (getChildren mergeState 6)" by (simp add: N)
  from indent_both_frame [OF nn par prv nxt anest cnest ia ic pil kids dist]
  obtain s' where i: "indentListItem mergeState 2 = Some s'" and F: "fresh s' = fresh mergeState"
    and P: "\<And>m. getParent s' m =
                  (if m = 2 \<or> m \<in> set (getChildren mergeState 6) then Some 4
                   else if m = 6 then None
                   else getParent mergeState m)"
    and C: "\<And>m. getChildren s' m =
                  (if m = 4 then getChildren mergeState 4 @ 2 # getChildren mergeState 6
                   else if m = 6 then []
                   else if m = 3 then removeAll 6 (getChildren mergeState 3)
                   else if m = 0 then removeAll 2 (getChildren mergeState 0)
                   else getChildren mergeState m)"
    and K: "\<And>m. node_kind (nodes s' m) = node_kind (nodes mergeState m)"
    by auto
  have "handleIndent mergeState [2] = Some s'" using i by (simp add: handleIndent_single)
  moreover have "fresh s' = 11" using F by (simp add: mergeState_fresh)
  moreover have "getParent s' m = (if m = 2 \<or> m = 7 then Some 4 else if m = 6 then None
             else getParent mergeState m)" for m
    by (simp add: P N)
  moreover have "getChildren s' m =
            (if m = 4 then [5, 2, 7] else if m = 6 then [] else if m = 3 then []
             else if m = 0 then [1, 3] else getChildren mergeState m)" for m
    by (simp add: C N)
  ultimately show ?thesis using K by blast
qed

text \<open>
  Claim C5 as stated, for every list subtree: in the merge scenario the leaf content
  below the inner List 4 is the content 9 of a1 alone; after the batch that indents
  B = 2 it is 8, 9 and 10, the contents of B, a1 and c1.
\<close>

theorem inner_list_content_counterexample:
  "isListNode mergeState (Some 4) \<and>
   subtreeContentOpt (Some mergeState) 4 = Some {9} \<and>
   subtreeContentOpt (handleIndent mergeState [2]) 4 = Some {8, 9, 10}"
proof -
  note N = mergeState_nodes
  have r: "\<not> reaches mergeState 8 4" "reaches mergeState 9 4" "\<not> reaches mergeState 10 4"
    by (simp_all add: reaches_iff N)
  have cand: "c = 8 \<or> c = 9 \<or> c = 10"
    if "c < 11" "node_kind (nodes mergeState c) = ContentNode" for c
    using that by (simp add: N split: if_splits) arith
  have a: "subtreeContent mergeState 4 = {9}"
  proof (intro set_eqI iffI)
    fix c assume "c \<in> subtreeContent mergeState 4"
    then have c: "c < 11" "node_kind (nodes mergeState c) = ContentNode"
      "reaches mergeState c 4"
      by (simp_all add: subtreeContent_def mergeState_fresh)
    from cand [OF c(1,2)] c(3) r show "c \<in> {9}" by auto
  next
    fix c :: nat assume "c \<in> {9}"
    then show "c \<in> subtreeContent mergeState 4"
      using r by (simp add: subtreeContent_def mergeState_fresh N)
  qed
  from mergeState_indent obtain s' where h: "handleIndent mergeState [2] = Some s'"
    and F: "fresh s' = 11"
    and P: "\<And>m. getParent s' m =
            (if m = 2 \<or> m = 7 then Some 4 else if m = 6 then None
             else getParent mergeState m)"
    and C: "\<And>m. getChildren s' m =
            (if m = 4 then [5, 2, 7] else if m = 6 then [] else if m = 3 then []
             else if m = 0 then [1, 3] else getChildren mergeState m)"
    and K: "\<And>m. node_kind (nodes s' m) = node_kind (nodes mergeState m)"
    by blast
  have r': "reaches s' 8 4" "reaches s' 9 4" "reaches s' 10 4"
    by (simp_all add: reaches_iff P N)
  have "subtreeContent s' 4 = {8, 9, 10}"
  proof (intro set_eqI iffI)
    fix c assume "c \<in> subtreeContent s' 4"
    then have "c < 11" "node_kind (nodes mergeState c) = ContentNode"
      by (simp_all add: subtreeContent_def F K)
    from cand [OF this] show "c \<in> {8, 9, 10}" by auto
  next
    fix c :: nat assume "c \<in> {8, 9, 10}"
    then show "c \<in> subtreeContent s' 4"
      using r' by (auto simp: subtreeContent_def F K C N)
  qed
  with a h show ?thesis
    by (simp add: subtreeContentOpt_def mergeState_kinds)
qed

end
